theory Spec2Isabelle
  imports Main
begin

section \<open>Python strings\<close>

text \<open>
  A Python \<open>str\<close> is modelled as a \<^typ>\<open>string\<close>: the character with number \<open>n\<close>
  stands for the code point \<open>n\<close>, so the model covers the strings whose code points are
  below 256. The functions below are the \<open>str\<close> methods that \<open>crawler_bot.py\<close> and
  \<open>urllib.parse\<close> call, at the arguments they are called with.
\<close>

datatype py_error = ValueError | AttributeError | IntegrityError | OperationalError

definition slash :: char where
  "slash = CHR ''/''"

text \<open>\<open>s.rstrip("/")\<close>: every trailing slash is removed.\<close>

definition rstrip_slash :: "string \<Rightarrow> string" where
  "rstrip_slash s = rev (dropWhile (\<lambda>c. c = slash) (rev s))"

text \<open>\<open>s.startswith(p)\<close>.\<close>

definition startswith :: "string \<Rightarrow> string \<Rightarrow> bool" where
  "startswith s p = (take (length p) s = p)"

text \<open>\<open>sub in s\<close> for strings: \<open>sub\<close> occurs in \<open>s\<close> at some position.\<close>

fun contains :: "string \<Rightarrow> string \<Rightarrow> bool" where
  "contains sub [] = (sub = [])"
| "contains sub (c # cs) = (startswith (c # cs) sub \<or> contains sub cs)"

text \<open>\<open>s.split(sep)\<close> for a separator of one character; the result is never empty.\<close>

fun split :: "char \<Rightarrow> string \<Rightarrow> string list" where
  "split sep [] = [[]]"
| "split sep (c # cs) =
     (if c = sep then [] # split sep cs
      else (case split sep cs of [] \<Rightarrow> [[c]] | p # ps \<Rightarrow> (c # p) # ps))"

text \<open>
  \<open>c.isdigit()\<close> on a code point below 256: the decimal digits and the superscript
  digits U+00B2, U+00B3 and U+00B9. \<open>s.isdigit()\<close> needs at least one character.
\<close>

definition isdigit_char :: "char \<Rightarrow> bool" where
  "isdigit_char c = (c \<in> set ''0123456789'' \<or> c \<in> set [CHR 0xB2, CHR 0xB3, CHR 0xB9])"

definition isdigit :: "string \<Rightarrow> bool" where
  "isdigit s = (s \<noteq> [] \<and> list_all isdigit_char s)"

text \<open>\<open>s.lower()\<close> on the characters of a URL scheme, which are ASCII.\<close>

definition lower_char :: "char \<Rightarrow> char" where
  "lower_char c =
     (case map_of (zip ''ABCDEFGHIJKLMNOPQRSTUVWXYZ'' ''abcdefghijklmnopqrstuvwxyz'') c of
        None \<Rightarrow> c
      | Some l \<Rightarrow> l)"

section \<open>\<open>urllib.parse.urlparse\<close>\<close>

text \<open>
  \<open>normalize_link\<close> and \<open>normalize_telegram_channel\<close> read \<open>scheme\<close>, \<open>netloc\<close> and
  \<open>path\<close> of \<open>urlparse(link)\<close>. The parser is the standard library's (CPython 3.11.4,
  \<open>Lib/urllib/parse.py\<close>), followed statement by statement for \<open>str\<close> input and the
  default arguments \<open>scheme=''\<close>, \<open>allow_fragments=True\<close>. Its check of a bracketed
  host (\<open>_check_bracketed_host\<close>, which calls \<open>ipaddress.ip_address\<close>) is the parameter
  \<open>ok\<close>: \<open>ok h\<close> says that the check does not raise on \<open>h\<close>. \<open>_checknetloc\<close> raises
  only when NFKC normalisation of the netloc produces one of \<open>/?#@:\<close>, which no code
  point below 256 does, so it has no branch here.
\<close>

record ParseResult =
  scheme :: string
  netloc :: string
  path :: string
  params :: string
  query :: string
  fragment :: string

definition scheme_chars :: string where
  "scheme_chars =
     ''abcdefghijklmnopqrstuvwxyz'' @ ''ABCDEFGHIJKLMNOPQRSTUVWXYZ'' @ ''0123456789'' @ ''+-.''"

definition uses_params :: "string list" where
  "uses_params = ['''', ''ftp'', ''hdl'', ''prospero'', ''http'', ''imap'',
                  ''https'', ''shttp'', ''rtsp'', ''rtsps'', ''rtspu'', ''sip'',
                  ''sips'', ''mms'', ''sftp'', ''tel'']"

text \<open>\<open>url[0].isascii() and url[0].isalpha()\<close>: an ASCII letter.\<close>

definition ascii_alpha :: "char \<Rightarrow> bool" where
  "ascii_alpha c =
     (c \<in> set (''abcdefghijklmnopqrstuvwxyz'' @ ''ABCDEFGHIJKLMNOPQRSTUVWXYZ''))"

text \<open>\<open>url.lstrip(_WHATWG_C0_CONTROL_OR_SPACE)\<close>: leading code points 0 to 32 go.\<close>

definition lstrip_c0 :: "string \<Rightarrow> string" where
  "lstrip_c0 s = dropWhile (\<lambda>c. (of_char c :: nat) \<le> 32) s"

text \<open>The loop over \<open>_UNSAFE_URL_BYTES_TO_REMOVE\<close>: tab, CR and LF are deleted.\<close>

definition remove_unsafe :: "string \<Rightarrow> string" where
  "remove_unsafe s = filter (\<lambda>c. c \<notin> set [CHR 0x09, CHR 0x0D, CHR 0x0A]) s"

text \<open>
  \<open>s.split(c, 1)\<close> when \<open>c in s\<close>: the text before the first \<open>c\<close> and the text
  after it.
\<close>

definition split_once :: "char \<Rightarrow> string \<Rightarrow> string \<times> string" where
  "split_once c s = (takeWhile (\<lambda>x. x \<noteq> c) s, drop 1 (dropWhile (\<lambda>x. x \<noteq> c) s))"

text \<open>
  The scheme: \<open>i = url.find(':')\<close>; when \<open>i > 0\<close>, the first character is an ASCII
  letter and every character before the colon is a scheme character, the scheme is
  \<open>url[:i].lower()\<close> and the rest is \<open>url[i+1:]\<close>.
\<close>

definition split_scheme :: "string \<Rightarrow> string \<times> string" where
  "split_scheme url =
     (if CHR '':'' \<in> set url then
        (let pre = takeWhile (\<lambda>x. x \<noteq> CHR '':'') url in
         if pre \<noteq> [] \<and> ascii_alpha (hd url) \<and> list_all (\<lambda>c. c \<in> set scheme_chars) pre
         then (map lower_char pre, drop (Suc (length pre)) url)
         else ('''', url))
      else ('''', url))"

text \<open>
  \<open>_splitnetloc(url, 2)\<close>: the netloc runs from position 2 to the first of \<open>/?#\<close>.
\<close>

definition splitnetloc :: "string \<Rightarrow> string \<times> string" where
  "splitnetloc url =
     (takeWhile (\<lambda>c. c \<notin> set ''/?#'') (drop 2 url),
      dropWhile (\<lambda>c. c \<notin> set ''/?#'') (drop 2 url))"

text \<open>\<open>netloc.partition('[')[2].partition(']')[0]\<close>.\<close>

definition bracketed_host :: "string \<Rightarrow> string" where
  "bracketed_host nl =
     takeWhile (\<lambda>c. c \<noteq> CHR '']'') (drop 1 (dropWhile (\<lambda>c. c \<noteq> CHR ''['') nl))"

text \<open>
  \<open>urlsplit\<close>. A netloc is read only when the text after the scheme starts with
  \<open>//\<close>; a netloc with one kind of bracket and not the other, or with a bracketed
  host that the check refuses, raises \<open>ValueError\<close>.
\<close>

definition urlsplit ::
  "(string \<Rightarrow> bool) \<Rightarrow> string \<Rightarrow> py_error + (string \<times> string \<times> string \<times> string \<times> string)" where
  "urlsplit ok url0 =
     (let url1 = remove_unsafe (lstrip_c0 url0);
          (sch, url2) = split_scheme url1;
          has_netloc = (take 2 url2 = ''//'');
          (nl, url3) = (if has_netloc then splitnetloc url2 else ('''', url2));
          lb = (CHR ''['' \<in> set nl);
          rb = (CHR '']'' \<in> set nl)
      in if has_netloc \<and> lb \<noteq> rb then Inl ValueError
         else if has_netloc \<and> lb \<and> rb \<and> \<not> ok (bracketed_host nl) then Inl ValueError
         else
           (let (url4, frag) =
                  (if CHR ''#'' \<in> set url3 then split_once (CHR ''#'') url3 else (url3, ''''));
                (url5, q) =
                  (if CHR ''?'' \<in> set url4 then split_once (CHR ''?'') url4 else (url4, ''''))
            in Inr (sch, nl, url5, q, frag)))"

text \<open>
  \<open>_splitparams(url)\<close>, which \<open>urlparse\<close> calls only on a path that holds a \<open>;\<close>: the
  parameters start at the first \<open>;\<close> of the last path segment
  (\<open>url.find(';', url.rfind('/'))\<close>), or at the first \<open>;\<close> when the path has no slash.
\<close>

definition splitparams :: "string \<Rightarrow> string \<times> string" where
  "splitparams url =
     (if slash \<in> set url then
        (let last_seg = rev (takeWhile (\<lambda>c. c \<noteq> slash) (rev url));
             before = take (length url - length last_seg) url
         in if CHR '';'' \<in> set last_seg
            then (before @ fst (split_once (CHR '';'') last_seg),
                  snd (split_once (CHR '';'') last_seg))
            else (url, ''''))
      else split_once (CHR '';'') url)"

definition urlparse :: "(string \<Rightarrow> bool) \<Rightarrow> string \<Rightarrow> py_error + ParseResult" where
  "urlparse ok url =
     (case urlsplit ok url of
        Inl e \<Rightarrow> Inl e
      | Inr (sch, nl, p, q, frag) \<Rightarrow>
          (let (p', prm) =
                 (if sch \<in> set uses_params \<and> CHR '';'' \<in> set p then splitparams p
                  else (p, ''''))
           in Inr \<lparr>scheme = sch, netloc = nl, path = p', params = prm,
                    query = q, fragment = frag\<rparr>))"

text \<open>
  Two notions for the facts about \<open>urlsplit\<close>: the path it returns for the text that
  follows the netloc, and its result without the query and the fragment.
\<close>

definition path_part :: "string \<Rightarrow> string" where
  "path_part y =
     (let url4 = (if CHR ''#'' \<in> set y then fst (split_once (CHR ''#'') y) else y)
      in if CHR ''?'' \<in> set url4 then fst (split_once (CHR ''?'') url4) else url4)"

definition split_core ::
  "py_error + (string \<times> string \<times> string \<times> string \<times> string) \<Rightarrow>
   py_error + (string \<times> string \<times> string)" where
  "split_core r = (case r of Inl e \<Rightarrow> Inl e | Inr (s, n, p, q, f) \<Rightarrow> Inr (s, n, p))"

section \<open>Link normalization\<close>

text \<open>
  The three normalization functions of \<open>crawler_bot.py\<close>. A \<open>ValueError\<close> of
  \<open>urlparse\<close> is not caught by either normalizer.
\<close>

definition url_string :: "ParseResult \<Rightarrow> string \<Rightarrow> string" where
  "url_string parsed p = scheme parsed @ ''://'' @ netloc parsed @ p"

definition normalize_link :: "(string \<Rightarrow> bool) \<Rightarrow> string \<Rightarrow> py_error + string" where
  "normalize_link ok link =
     (case urlparse ok link of
        Inl e \<Rightarrow> Inl e
      | Inr parsed \<Rightarrow> Inr (url_string parsed (rstrip_slash (path parsed))))"

definition special_prefixes :: "string list" where
  "special_prefixes = [''/joinchat/'', ''/addstickers/'', ''/s/'', ''/proxy'']"

definition normalize_telegram_channel :: "(string \<Rightarrow> bool) \<Rightarrow> string \<Rightarrow> py_error + string" where
  "normalize_telegram_channel ok link =
     (case urlparse ok link of
        Inl e \<Rightarrow> Inl e
      | Inr parsed \<Rightarrow>
          (let p = rstrip_slash (path parsed) in
           if list_ex (startswith p) special_prefixes then Inr (url_string parsed p)
           else if netloc parsed = ''t.me'' \<and> slash \<in> set (drop 1 p) then
             (let parts = split slash p in
              if length parts \<ge> 3 \<and> isdigit (parts ! 2)
              then Inr (scheme parsed @ ''://'' @ netloc parsed @ ''/'' @ parts ! 1)
              else Inr (url_string parsed p))
           else Inr (url_string parsed p)))"

text \<open>
  The value of the variable \<open>normalized\<close> at line 104 of \<open>save_links_to_db\<close>:
  \<open>normalize_telegram_channel(link) if "t.me" in link else normalize_link(link)\<close>.
\<close>

definition normalized :: "(string \<Rightarrow> bool) \<Rightarrow> string \<Rightarrow> py_error + string" where
  "normalized ok link =
     (if contains ''t.me'' link then normalize_telegram_channel ok link
      else normalize_link ok link)"

text \<open>
  Before CPython 3.11.4 \<open>urlsplit\<close> did not look inside a pair of brackets: there the
  check accepts every host.
\<close>

definition no_check :: "string \<Rightarrow> bool" where
  "no_check h = True"

definition detect_platform :: "string \<Rightarrow> string" where
  "detect_platform link =
     (if contains ''t.me'' link then ''telegram''
      else if contains ''chat.whatsapp.com'' link then ''whatsapp''
      else ''other'')"

section \<open>Link extraction\<close>

text \<open>
  The message objects of the transport library, with the attributes the extractor
  reads. Attribute names that clash with a keyword or a library constant carry a
  suffix: \<open>text_m\<close> is \<open>message.text\<close>, \<open>length_e\<close> is \<open>entity.length\<close>, \<open>url_b\<close> is
  \<open>button.url\<close>. An entity's \<open>url\<close> is read only for a \<open>TEXT_LINK\<close> entity, for
  which the transport supplies it.
\<close>

record MessageEntity =
  type :: string
  offset :: int
  length_e :: int
  url :: string

definition URL :: string where
  "URL = ''url''"

definition TEXT_LINK :: string where
  "TEXT_LINK = ''text_link''"

record InlineKeyboardButton =
  url_b :: "string option"

record InlineKeyboardMarkup =
  inline_keyboard :: "InlineKeyboardButton list list"

datatype Message =
  Message (text_m: "string option") (entities: "MessageEntity list")
    (caption: "string option") (caption_entities: "MessageEntity list")
    (reply_markup: "InlineKeyboardMarkup option") (reply_to_message: "Message option")

text \<open>
  \<open>s[i:j]\<close>: a negative index counts from the end, and both ends are clamped to the
  string.
\<close>

definition slice_index :: "nat \<Rightarrow> int \<Rightarrow> nat" where
  "slice_index n i = (if i < 0 then nat (max 0 (int n + i)) else min n (nat i))"

definition py_slice :: "string \<Rightarrow> int \<Rightarrow> int \<Rightarrow> string" where
  "py_slice s i j =
     (let a = slice_index (length s) i; b = slice_index (length s) j
      in take (b - a) (drop a s))"

fun entity_links :: "string \<Rightarrow> MessageEntity list \<Rightarrow> string list" where
  "entity_links txt [] = []"
| "entity_links txt (entity # rest) =
     (if type entity = URL
      then py_slice txt (offset entity) (offset entity + length_e entity) #
           entity_links txt rest
      else if type entity = TEXT_LINK then url entity # entity_links txt rest
      else entity_links txt rest)"

definition extract_links_from_entities :: "string \<Rightarrow> MessageEntity list \<Rightarrow> string list" where
  "extract_links_from_entities txt ents = (if ents = [] then [] else entity_links txt ents)"

text \<open>\<open>if button.url\<close>: the URL is present and not the empty string.\<close>

fun row_links :: "InlineKeyboardButton list \<Rightarrow> string list" where
  "row_links [] = []"
| "row_links (button # rest) =
     (case url_b button of
        None \<Rightarrow> row_links rest
      | Some u \<Rightarrow> if u \<noteq> [] then u # row_links rest else row_links rest)"

definition extract_links_from_buttons :: "InlineKeyboardMarkup \<Rightarrow> string list" where
  "extract_links_from_buttons markup = concat (map row_links (inline_keyboard markup))"

text \<open>
  \<open>if message.text\<close> and \<open>if message.caption\<close> hold for a string that is present and
  not empty; a markup or a parent message counts when it is present. The recursion
  follows the reply chain to its end.
\<close>

fun extract_all_links_from_message :: "Message \<Rightarrow> string list" where
  "extract_all_links_from_message (Message txt ents cap cap_ents markup parent) =
     (case txt of
        None \<Rightarrow> []
      | Some t \<Rightarrow> if t \<noteq> [] then extract_links_from_entities t ents else []) @
     (case cap of
        None \<Rightarrow> []
      | Some c \<Rightarrow> if c \<noteq> [] then extract_links_from_entities c cap_ents else []) @
     (case markup of
        None \<Rightarrow> []
      | Some m \<Rightarrow> extract_links_from_buttons m) @
     (case parent of
        None \<Rightarrow> []
      | Some p \<Rightarrow> extract_all_links_from_message p)"

section \<open>The store\<close>

text \<open>
  A row of table \<open>links\<close>. Columns declared without \<open>NOT NULL\<close> are options;
  \<open>row_id\<close> is column \<open>id\<close>.
\<close>

record link_row =
  row_id :: nat
  normalized_link :: string
  original_link :: string
  platform :: string
  group_id :: "int option"
  group_name :: "string option"
  sender_id :: "int option"
  sender_name :: "string option"
  date_added :: string

text \<open>\<open>chat.id\<close>, \<open>chat.title\<close>, \<open>chat.username\<close>; \<open>sender.id\<close>, \<open>sender.full_name\<close>.\<close>

record Chat =
  chat_id :: int
  title :: "string option"
  username :: "string option"

record User =
  user_id :: int
  full_name :: string

datatype console_line =
  SavedLinks nat int "string option"
| TokenNotFound
| BotRunning

text \<open>
  What a run reads and writes outside the program: the committed rows of
  \<open>links.db\<close> and whether its table exists, the connections that are open, the lines
  printed, and two inputs of the environment. \<open>fault w k\<close> says that the \<open>k\<close>-th call
  into the storage layer raises \<open>sqlite3.OperationalError\<close> (\<open>ops\<close> counts the calls
  made); \<open>utcnow w k\<close> is what the \<open>k\<close>-th reading of the clock returns (\<open>clock\<close> counts
  the readings).
\<close>

record world =
  links :: "link_row list"
  table_created :: bool
  open_conns :: nat
  console :: "console_line list"
  fault :: "nat \<Rightarrow> bool"
  ops :: nat
  utcnow :: "nat \<Rightarrow> string"
  clock :: nat

text \<open>\<open>sqlite3.connect(DB_FILE)\<close>.\<close>

definition connect :: "world \<Rightarrow> (py_error + unit) \<times> world" where
  "connect w =
     (if fault w (ops w) then (Inl OperationalError, w\<lparr>ops := Suc (ops w)\<rparr>)
      else (Inr (), w\<lparr>ops := Suc (ops w), open_conns := Suc (open_conns w)\<rparr>))"

text \<open>
  \<open>UNIQUE(normalized_link, group_id)\<close>: a new row conflicts with a row that has the
  same normalized link and the same group id; SQLite never takes two \<open>NULL\<close>s for the
  same value.
\<close>

definition conflicts :: "link_row \<Rightarrow> link_row \<Rightarrow> bool" where
  "conflicts new old =
     (normalized_link old = normalized_link new \<and>
      (case group_id new of None \<Rightarrow> False | Some g \<Rightarrow> group_id old = Some g))"

text \<open>\<open>AUTOINCREMENT\<close>: one more than the largest id; rows are never deleted.\<close>

definition next_id :: "link_row list \<Rightarrow> nat" where
  "next_id rows = Suc (fold max (map row_id rows) 0)"

text \<open>
  \<open>cursor.execute("INSERT INTO links ...")\<close> on a connection whose transaction holds
  the rows \<open>pending\<close>: the statement sees the committed rows and the pending ones.
\<close>

definition execute_insert ::
  "link_row \<Rightarrow> link_row list \<Rightarrow> world \<Rightarrow> (py_error + link_row list) \<times> world" where
  "execute_insert new pending w =
     (let w' = w\<lparr>ops := Suc (ops w)\<rparr> in
      if fault w (ops w) \<or> \<not> table_created w then (Inl OperationalError, w')
      else if list_ex (conflicts new) (links w @ pending) then (Inl IntegrityError, w')
      else (Inr (pending @ [new\<lparr>row_id := next_id (links w @ pending)\<rparr>]), w'))"

text \<open>\<open>conn.commit()\<close> and \<open>conn.close()\<close>.\<close>

definition commit :: "link_row list \<Rightarrow> world \<Rightarrow> (py_error + unit) \<times> world" where
  "commit pending w =
     (if fault w (ops w) then (Inl OperationalError, w\<lparr>ops := Suc (ops w)\<rparr>)
      else (Inr (), w\<lparr>ops := Suc (ops w), links := links w @ pending\<rparr>))"

definition close :: "world \<Rightarrow> world" where
  "close w = w\<lparr>open_conns := open_conns w - 1\<rparr>"

text \<open>\<open>chat.title or chat.username\<close>.\<close>

definition title_or_username :: "Chat \<Rightarrow> string option" where
  "title_or_username chat =
     (case title chat of
        None \<Rightarrow> username chat
      | Some t \<Rightarrow> if t \<noteq> [] then Some t else username chat)"

text \<open>
  The values bound to the statement's placeholders, as a row; the id is assigned by
  the insertion.
\<close>

definition insert_values :: "string \<Rightarrow> string \<Rightarrow> Chat \<Rightarrow> User \<Rightarrow> string \<Rightarrow> link_row" where
  "insert_values norm link c s now =
     \<lparr>row_id = 0, normalized_link = norm, original_link = link,
      platform = detect_platform link, group_id = Some (chat_id c),
      group_name = title_or_username c, sender_id = Some (user_id s),
      sender_name = Some (full_name s), date_added = now\<rparr>"

text \<open>
  The loop of \<open>save_links_to_db\<close>, with \<open>saved_count\<close> and the rows of the open
  transaction as accumulators. The chat and the sender are
  \<open>update.effective_chat\<close> and \<open>update.effective_user\<close>, which the transport leaves
  \<open>None\<close> for some updates: reading an attribute of \<open>None\<close> raises
  \<open>AttributeError\<close>. Only \<open>sqlite3.IntegrityError\<close> is caught.
\<close>

fun insert_loop ::
  "(string \<Rightarrow> bool) \<Rightarrow> string list \<Rightarrow> Chat option \<Rightarrow> User option \<Rightarrow> nat \<Rightarrow> link_row list \<Rightarrow>
   world \<Rightarrow> (py_error + nat \<times> link_row list) \<times> world" where
  "insert_loop ok [] chat sender saved_count pending w = (Inr (saved_count, pending), w)"
| "insert_loop ok (link # rest) chat sender saved_count pending w =
     (case normalized ok link of
        Inl e \<Rightarrow> (Inl e, w)
      | Inr norm \<Rightarrow>
          (let now = utcnow w (clock w);
               w1 = w\<lparr>clock := Suc (clock w)\<rparr>
           in case chat of
                None \<Rightarrow> (Inl AttributeError, w1)
              | Some c \<Rightarrow>
                  (case sender of
                     None \<Rightarrow> (Inl AttributeError, w1)
                   | Some s \<Rightarrow>
                       (case execute_insert (insert_values norm link c s now) pending w1 of
                          (Inl e, w2) \<Rightarrow>
                            if e = IntegrityError
                            then insert_loop ok rest chat sender saved_count pending w2
                            else (Inl e, w2)
                        | (Inr pending', w2) \<Rightarrow>
                            insert_loop ok rest chat sender (Suc saved_count) pending' w2))))"

text \<open>
  \<open>save_links_to_db\<close>: connect, loop, commit, close. An error leaves the function
  at the statement that raised it.
\<close>

definition save_links_to_db ::
  "(string \<Rightarrow> bool) \<Rightarrow> string list \<Rightarrow> Chat option \<Rightarrow> User option \<Rightarrow> world \<Rightarrow>
   (py_error + nat) \<times> world" where
  "save_links_to_db ok original_links chat sender w =
     (case connect w of
        (Inl e, w1) \<Rightarrow> (Inl e, w1)
      | (Inr u, w1) \<Rightarrow>
          (case insert_loop ok original_links chat sender 0 [] w1 of
             (Inl e, w2) \<Rightarrow> (Inl e, w2)
           | (Inr (saved_count, pending), w2) \<Rightarrow>
               (case commit pending w2 of
                  (Inl e, w3) \<Rightarrow> (Inl e, w3)
                | (Inr u', w3) \<Rightarrow> (Inr saved_count, close w3))))"

text \<open>
  The identity of a row under the constraint of the table, the invariant of the
  table, and the canonical links that a list of rows holds for a group.
\<close>

definition key :: "link_row \<Rightarrow> string \<times> int option" where
  "key r = (normalized_link r, group_id r)"

definition unique_pairs :: "link_row list \<Rightarrow> bool" where
  "unique_pairs rows = distinct (map key rows)"

definition rows_of :: "int \<Rightarrow> link_row list \<Rightarrow> link_row list" where
  "rows_of g rows = filter (\<lambda>r. group_id r = Some g) rows"

definition stored_for :: "int \<Rightarrow> link_row list \<Rightarrow> string set" where
  "stored_for g rows = set (map normalized_link (rows_of g rows))"

text \<open>The canonical links of a list of candidates: those whose normalization returns.\<close>

definition canonical_links :: "(string \<Rightarrow> bool) \<Rightarrow> string list \<Rightarrow> string set" where
  "canonical_links ok ls =
     set (concat (map (\<lambda>l. case normalized ok l of Inl e \<Rightarrow> [] | Inr nm \<Rightarrow> [nm]) ls))"

section \<open>The handler and the start of the process\<close>

record Update =
  effective_message :: "Message option"
  effective_chat :: "Chat option"
  effective_user :: "User option"

definition handle_all_messages ::
  "(string \<Rightarrow> bool) \<Rightarrow> Update \<Rightarrow> world \<Rightarrow> (py_error + unit) \<times> world" where
  "handle_all_messages ok update w =
     (case effective_message update of
        None \<Rightarrow> (Inr (), w)
      | Some message \<Rightarrow>
          (let all_links = extract_all_links_from_message message in
           if all_links = [] then (Inr (), w)
           else
             (case save_links_to_db ok all_links (effective_chat update)
                     (effective_user update) w of
                (Inl e, w1) \<Rightarrow> (Inl e, w1)
              | (Inr added, w1) \<Rightarrow>
                  if added \<noteq> 0 then
                    (case effective_chat update of
                       None \<Rightarrow> (Inl AttributeError, w1)
                     | Some c \<Rightarrow>
                         (Inr (),
                          w1\<lparr>console := console w1 @ [SavedLinks added (chat_id c) (title c)]\<rparr>))
                  else (Inr (), w1))))"

text \<open>
  \<open>init_db\<close>, which the module calls when it is loaded: connect, create the table if
  it does not exist, commit, close.
\<close>

definition init_db :: "world \<Rightarrow> (py_error + unit) \<times> world" where
  "init_db w =
     (case connect w of
        (Inl e, w1) \<Rightarrow> (Inl e, w1)
      | (Inr u, w1) \<Rightarrow>
          if fault w1 (ops w1) then (Inl OperationalError, w1\<lparr>ops := Suc (ops w1)\<rparr>)
          else
            (case commit [] (w1\<lparr>ops := Suc (ops w1), table_created := True\<rparr>) of
               (Inl e, w2) \<Rightarrow> (Inl e, w2)
             | (Inr u', w2) \<Rightarrow> (Inr (), close w2)))"

text \<open>
  How a run of the module ends. \<open>exit()\<close> raises \<open>SystemExit\<close> with the code it is
  given, \<open>None\<close> when it is called without one; the interpreter turns the code
  \<open>None\<close> into exit status 0.
\<close>

datatype outcome = Exited int | Raised py_error | Polling | Loaded

definition py_exit :: "int option \<Rightarrow> outcome" where
  "py_exit code = Exited (case code of None \<Rightarrow> 0 | Some n \<Rightarrow> n)"

text \<open>
  The statements of the module in their order, for the value \<open>os.getenv("TOKEN")\<close>
  returns and for whether the module runs as \<open>__main__\<close>: \<open>init_db()\<close> at line 38, the
  check of the token at line 146, the application at line 150. \<open>Polling\<close> stands for
  the application built with the token, the handler added and \<open>run_polling\<close> entered.
\<close>

definition run_module :: "string option \<Rightarrow> bool \<Rightarrow> world \<Rightarrow> outcome \<times> world" where
  "run_module TOKEN is_main w =
     (case init_db w of
        (Inl e, w1) \<Rightarrow> (Raised e, w1)
      | (Inr u, w1) \<Rightarrow>
          if TOKEN = None \<or> TOKEN = Some []
          then (py_exit None, w1\<lparr>console := console w1 @ [TokenNotFound]\<rparr>)
          else if is_main then (Polling, w1\<lparr>console := console w1 @ [BotRunning]\<rparr>)
          else (Loaded, w1))"

section \<open>A sample world\<close>

text \<open>
  An empty table on which no call into the storage layer fails, two groups and a
  sender, for the concrete runs below.
\<close>

definition w0 :: world where
  "w0 = \<lparr>links = [], table_created = True, open_conns = 0, console = [],
         fault = (\<lambda>k. False), ops = 0, utcnow = (\<lambda>k. ''2024-01-01T00:00:00''), clock = 0\<rparr>"

definition group_a :: Chat where
  "group_a = \<lparr>chat_id = -1001, title = Some ''Group A'', username = None\<rparr>"

definition alice :: User where
  "alice = \<lparr>user_id = 42, full_name = ''Alice''\<rparr>"

definition group_b :: Chat where
  "group_b = \<lparr>chat_id = -1002, title = None, username = Some ''group_b''\<rparr>"

text \<open>
  A message with one URL entity in its text that replies to a message with two URL
  buttons, and a message without links. The three links have two canonical forms.
\<close>

definition msg_parent :: Message where
  "msg_parent =
     Message (Some ''parent'') [] None []
       (Some \<lparr>inline_keyboard =
                [[\<lparr>url_b = Some ''https://t.me/examplechannel/12345''\<rparr>],
                 [\<lparr>url_b = Some ''https://t.me/examplechannel/67890''\<rparr>]]\<rparr>) None"

definition msg_reply :: Message where
  "msg_reply =
     Message (Some ''see https://a.example/x/?utm=1 now'')
       [\<lparr>type = URL, offset = 4, length_e = 26, url = []\<rparr>] None [] None (Some msg_parent)"

definition msg_plain :: Message where
  "msg_plain = Message (Some ''hello'') [] None [] None None"

section \<open>Facts about the string functions and the normalizers\<close>

lemma rstrip_slash_append:
  "rstrip_slash (xs @ ys) =
     (if rstrip_slash ys = [] then rstrip_slash xs else xs @ rstrip_slash ys)"
  by (auto simp: rstrip_slash_def dropWhile_append)

lemma rstrip_slash_replicate:
  "rstrip_slash s @ replicate (length s - length (rstrip_slash s)) slash = s"
proof -
  define t where "t = takeWhile (\<lambda>c. c = slash) (rev s)"
  have "\<forall>x\<in>set t. x = slash"
    unfolding t_def by (auto dest: set_takeWhileD)
  then have t_rep: "replicate (length t) slash = t"
    by (rule replicate_length_same)
  have "rev s = t @ dropWhile (\<lambda>c. c = slash) (rev s)"
    by (simp add: t_def)
  then have "rev (rev s) = rev (t @ dropWhile (\<lambda>c. c = slash) (rev s))"
    by simp
  then have s_eq: "s = rstrip_slash s @ rev t"
    by (simp add: rstrip_slash_def)
  then have "length s = length (rstrip_slash s) + length t"
    by (metis length_append length_rev)
  then have len: "length s - length (rstrip_slash s) = length t"
    by simp
  have "rev t = replicate (length t) slash"
    by (subst t_rep [symmetric]) simp
  with s_eq len show ?thesis by simp
qed

lemma split_not_Nil: "split sep xs \<noteq> []"
  by (induction xs) (auto split: list.splits)

lemma split_replicate: "split sep (replicate k sep) = replicate (Suc k) []"
  by (induction k) auto

lemma split_append_seps: "split sep (xs @ replicate k sep) = split sep xs @ replicate k []"
proof (induction xs)
  case Nil
  show ?case by (simp add: split_replicate)
next
  case (Cons x xs)
  then show ?case by (auto split: list.splits simp: split_not_Nil)
qed

lemma length_split: "length (split sep xs) = Suc (length (filter (\<lambda>c. c = sep) xs))"
  by (induction xs) (auto split: list.splits simp: split_not_Nil)

lemma startswith_iff: "startswith s p \<longleftrightarrow> (\<exists>t. s = p @ t)"
proof
  assume "startswith s p"
  then have "s = p @ drop (length p) s"
    unfolding startswith_def by (metis append_take_drop_id)
  then show "\<exists>t. s = p @ t" ..
next
  assume "\<exists>t. s = p @ t"
  then show "startswith s p" by (auto simp: startswith_def)
qed

lemma startswith_append: "startswith s p \<Longrightarrow> startswith (s @ t) p"
  by (auto simp: startswith_iff)


lemma split_stripped:
  assumes "3 \<le> length (split slash s)" and "isdigit (split slash s ! 2)"
  shows "3 \<le> length (split slash (rstrip_slash s)) \<and>
         split slash (rstrip_slash s) ! 2 = split slash s ! 2 \<and>
         split slash (rstrip_slash s) ! 1 = split slash s ! 1"
proof -
  define r where "r = rstrip_slash s"
  define k where "k = length s - length r"
  have "split slash (r @ replicate k slash) = split slash r @ replicate k []"
    by (rule split_append_seps)
  then have eq: "split slash s = split slash r @ replicate k []"
    by (simp add: r_def k_def rstrip_slash_replicate)
  have long: "3 \<le> length (split slash r)"
  proof (rule ccontr)
    assume "\<not> 3 \<le> length (split slash r)"
    then have short: "length (split slash r) \<le> 2" by simp
    from assms(1) eq short have "2 - length (split slash r) < k" by simp
    with short eq have "split slash s ! 2 = []"
      by (simp add: nth_append)
    with assms(2) show False by (simp add: isdigit_def)
  qed
  with eq show ?thesis
    by (simp add: nth_append r_def)
qed

lemma split_unstripped:
  assumes "3 \<le> length (split slash (rstrip_slash s))"
  shows "3 \<le> length (split slash s) \<and>
         split slash s ! 2 = split slash (rstrip_slash s) ! 2 \<and>
         split slash s ! 1 = split slash (rstrip_slash s) ! 1"
proof -
  define r where "r = rstrip_slash s"
  define k where "k = length s - length r"
  have "split slash (r @ replicate k slash) = split slash r @ replicate k []"
    by (rule split_append_seps)
  then have eq: "split slash s = split slash r @ replicate k []"
    by (simp add: r_def k_def rstrip_slash_replicate)
  with assms show ?thesis
    by (simp add: nth_append r_def)
qed

lemma slash_in_tail:
  assumes "3 \<le> length (split slash r)"
  shows "slash \<in> set (drop 1 r)"
proof -
  from assms have two: "2 \<le> length (filter (\<lambda>c. c = slash) r)"
    by (simp add: length_split)
  show ?thesis
  proof (cases r)
    case Nil
    with two show ?thesis by simp
  next
    case (Cons x xs)
    with two have "1 \<le> length (filter (\<lambda>c. c = slash) xs)"
      by (simp split: if_splits)
    then have "filter (\<lambda>c. c = slash) xs \<noteq> []" by auto
    then have "slash \<in> set xs"
      by (metis (mono_tags, lifting) filter_False)
    with Cons show ?thesis by simp
  qed
qed

lemma prefix_lost_by_strip:
  assumes "list_ex (startswith s) special_prefixes"
    and "\<not> list_ex (startswith (rstrip_slash s)) special_prefixes"
  shows "slash \<notin> set (drop 1 (rstrip_slash s))"
proof -
  from assms(1) obtain pre where pre: "pre \<in> set special_prefixes" and "startswith s pre"
    by (auto simp: list_ex_iff)
  then obtain rest where s: "s = pre @ rest"
    by (auto simp: startswith_iff)
  have no: "\<not> startswith (rstrip_slash s) pre"
    using assms(2) pre by (auto simp: list_ex_iff)
  have "rstrip_slash rest = []"
  proof (rule ccontr)
    assume "rstrip_slash rest \<noteq> []"
    then have "rstrip_slash s = pre @ rstrip_slash rest"
      by (simp add: s rstrip_slash_append)
    with no show False by (simp add: startswith_iff)
  qed
  then have r: "rstrip_slash s = rstrip_slash pre"
    by (simp add: s rstrip_slash_append)
  from pre consider "pre = ''/joinchat/''" | "pre = ''/addstickers/''" | "pre = ''/s/''"
    | "pre = ''/proxy''"
    by (auto simp: special_prefixes_def)
  then have "slash \<notin> set (drop 1 (rstrip_slash pre))"
  proof cases
    case 4
    with no r show ?thesis by (simp add: rstrip_slash_def slash_def startswith_def)
  qed (simp_all add: rstrip_slash_def slash_def)
  with r show ?thesis by simp
qed

lemma prefix_kept_by_append:
  "list_ex (startswith r) special_prefixes \<Longrightarrow> list_ex (startswith (r @ t)) special_prefixes"
  by (auto simp: list_ex_iff intro: startswith_append)

lemma prefix_of_stripped:
  assumes "list_ex (startswith (rstrip_slash s)) special_prefixes"
  shows "list_ex (startswith s) special_prefixes"
proof -
  have "list_ex (startswith (rstrip_slash s @ replicate (length s - length (rstrip_slash s)) slash))
          special_prefixes"
    using assms by (rule prefix_kept_by_append)
  then show ?thesis by (simp add: rstrip_slash_replicate)
qed

text \<open>
  What \<open>normalize_telegram_channel\<close> returns, with both tests of the source (made on the
  stripped path) restated on the parsed path itself.
\<close>

lemma normalize_telegram_channel_cases:
  assumes "urlparse ok link = Inr p"
  shows "normalize_telegram_channel ok link =
     Inr (if \<not> list_ex (startswith (path p)) special_prefixes \<and> netloc p = ''t.me'' \<and>
             3 \<le> length (split slash (path p)) \<and> isdigit (split slash (path p) ! 2)
          then scheme p @ ''://'' @ netloc p @ ''/'' @ split slash (path p) ! 1
          else url_string p (rstrip_slash (path p)))"
proof -
  define r where "r = rstrip_slash (path p)"
  show ?thesis
  proof (cases "\<not> list_ex (startswith (path p)) special_prefixes \<and> netloc p = ''t.me'' \<and>
             3 \<le> length (split slash (path p)) \<and> isdigit (split slash (path p) ! 2)")
    case True
    then have a: "\<not> list_ex (startswith r) special_prefixes"
      unfolding r_def using prefix_of_stripped by blast
    from True have b: "3 \<le> length (split slash r) \<and> split slash r ! 2 = split slash (path p) ! 2
        \<and> split slash r ! 1 = split slash (path p) ! 1"
      unfolding r_def using split_stripped by blast
    then have c: "slash \<in> set (drop 1 r)"
      using slash_in_tail by blast
    from True a b c show ?thesis
      using assms by (simp add: normalize_telegram_channel_def r_def [symmetric] Let_def)
  next
    case False
    show ?thesis
    proof (cases "list_ex (startswith r) special_prefixes")
      case True
      then have "list_ex (startswith (path p)) special_prefixes"
        unfolding r_def by (rule prefix_of_stripped)
      with True show ?thesis
        using assms by (simp add: normalize_telegram_channel_def r_def [symmetric] Let_def)
    next
      case nopre: False
      show ?thesis
      proof (cases "netloc p = ''t.me'' \<and> slash \<in> set (drop 1 r) \<and>
                    3 \<le> length (split slash r) \<and> isdigit (split slash r ! 2)")
        case True
        then have seg: "3 \<le> length (split slash (path p)) \<and>
            split slash (path p) ! 2 = split slash r ! 2"
          unfolding r_def using split_unstripped by blast
        have "\<not> list_ex (startswith (path p)) special_prefixes"
          using prefix_lost_by_strip [of "path p"] nopre True unfolding r_def by blast
        with seg True False show ?thesis by simp
      next
        case False
        with nopre \<open>\<not> (\<not> list_ex (startswith (path p)) special_prefixes \<and> netloc p = ''t.me'' \<and>
             3 \<le> length (split slash (path p)) \<and> isdigit (split slash (path p) ! 2))\<close>
        show ?thesis
          using assms by (auto simp: normalize_telegram_channel_def r_def [symmetric] Let_def)
      qed
    qed
  qed
qed

section \<open>The query and the fragment do not reach the path\<close>

lemma lstrip_c0_tail:
  "32 < (of_char c :: nat) \<Longrightarrow> lstrip_c0 (u @ c # t) = lstrip_c0 u @ c # t"
  by (simp add: lstrip_c0_def dropWhile_append3)

lemma cleaned_tail:
  assumes "c = CHR ''?'' \<or> c = CHR ''#''"
  shows "remove_unsafe (lstrip_c0 (u @ c # t)) =
         remove_unsafe (lstrip_c0 u) @ c # remove_unsafe t"
proof -
  from assms have "32 < (of_char c :: nat)" by auto
  then have "lstrip_c0 (u @ c # t) = lstrip_c0 u @ c # t"
    by (rule lstrip_c0_tail)
  with assms show ?thesis
    by (auto simp: remove_unsafe_def)
qed

lemma set_cleaned: "set (remove_unsafe (lstrip_c0 u)) \<subseteq> set u"
  by (auto simp: remove_unsafe_def lstrip_c0_def dest: set_dropWhileD)

lemma set_split_scheme: "set (snd (split_scheme v)) \<subseteq> set v"
  by (auto simp: split_scheme_def Let_def dest: in_set_dropD)

lemma length_takeWhile_stop:
  "x \<in> set v \<Longrightarrow> \<not> P x \<Longrightarrow> length (takeWhile P v) < length v"
  by (induction v) auto

lemma split_scheme_tail:
  assumes "c = CHR ''?'' \<or> c = CHR ''#''"
  shows "split_scheme (v @ c # t) = (fst (split_scheme v), snd (split_scheme v) @ c # t)"
proof (cases "CHR '':'' \<in> set v")
  case True
  then have tw: "takeWhile (\<lambda>x. x \<noteq> CHR '':'') (v @ c # t) = takeWhile (\<lambda>x. x \<noteq> CHR '':'') v"
    by (simp add: takeWhile_append1)
  from True have ne: "v \<noteq> []" by auto
  have "length (takeWhile (\<lambda>x. x \<noteq> CHR '':'') v) < length v"
    using True by (rule length_takeWhile_stop) simp
  then have dr: "drop (Suc (length (takeWhile (\<lambda>x. x \<noteq> CHR '':'') v))) (v @ c # t) =
      drop (Suc (length (takeWhile (\<lambda>x. x \<noteq> CHR '':'') v))) v @ c # t"
    by simp
  from True ne tw dr show ?thesis
    by (simp add: split_scheme_def Let_def)
next
  case False
  then have v: "split_scheme v = ([], v)"
    by (simp add: split_scheme_def)
  from False have "\<And>x. x \<in> set v \<Longrightarrow> x \<noteq> CHR '':''" by auto
  then have "takeWhile (\<lambda>x. x \<noteq> CHR '':'') (v @ c # t) =
      v @ takeWhile (\<lambda>x. x \<noteq> CHR '':'') (c # t)"
    by (rule takeWhile_append2)
  with assms have "c \<in> set (takeWhile (\<lambda>x. x \<noteq> CHR '':'') (v @ c # t))"
    by auto
  moreover from assms have "c \<notin> set scheme_chars"
    by (auto simp: scheme_chars_def)
  ultimately have "\<not> list_all (\<lambda>c. c \<in> set scheme_chars) (takeWhile (\<lambda>x. x \<noteq> CHR '':'') (v @ c # t))"
    by (auto simp: list_all_iff)
  then have "split_scheme (v @ c # t) = ([], v @ c # t)"
    by (simp add: split_scheme_def Let_def)
  with v show ?thesis by simp
qed

lemma take2_tail:
  assumes "c \<noteq> CHR ''/''"
  shows "(take 2 (x @ c # t) = ''//'') = (take 2 x = ''//'')"
proof (cases x)
  case Nil
  with assms show ?thesis by (simp add: numeral_2_eq_2)
next
  case (Cons a x')
  with assms show ?thesis by (cases x') (simp_all add: numeral_2_eq_2)
qed

lemma splitnetloc_tail:
  assumes "c = CHR ''?'' \<or> c = CHR ''#''" and "take 2 x = ''//''"
  shows "splitnetloc (x @ c # t) = (fst (splitnetloc x), snd (splitnetloc x) @ c # t)"
proof -
  from assms(2) have "length (take 2 x) = 2" by simp
  then have "2 \<le> length x" by simp
  then have d: "drop 2 (x @ c # t) = drop 2 x @ c # t" by simp
  from assms(1) have stop: "\<not> c \<notin> set ''/?#''" by auto
  show ?thesis
    unfolding splitnetloc_def d
    using stop by (simp add: takeWhile_tail dropWhile_append3)
qed

lemma set_splitnetloc: "set (snd (splitnetloc x)) \<subseteq> set x"
  by (auto simp: splitnetloc_def dest: set_dropWhileD in_set_dropD)

lemma takeWhile_all: "c \<notin> set y \<Longrightarrow> takeWhile (\<lambda>x. x \<noteq> c) y = y"
  by (induction y) auto

lemma takeWhile_stop: "c \<notin> set y \<Longrightarrow> takeWhile (\<lambda>x. x \<noteq> c) (y @ c # t) = y"
  by (induction y) auto

lemma takeWhile_pass:
  "c \<notin> set y \<Longrightarrow> d \<noteq> c \<Longrightarrow>
   takeWhile (\<lambda>x. x \<noteq> c) (y @ d # t) = y @ d # takeWhile (\<lambda>x. x \<noteq> c) t"
  by (induction y) auto

lemma urlsplit_core:
  "split_core (urlsplit ok url0) =
     (let v = remove_unsafe (lstrip_c0 url0);
          x = snd (split_scheme v);
          has_netloc = (take 2 x = ''//'');
          nl = (if has_netloc then fst (splitnetloc x) else []);
          y = (if has_netloc then snd (splitnetloc x) else x)
      in if has_netloc \<and> (CHR ''['' \<in> set nl) \<noteq> (CHR '']'' \<in> set nl) then Inl ValueError
         else if has_netloc \<and> CHR ''['' \<in> set nl \<and> CHR '']'' \<in> set nl \<and>
                 \<not> ok (bracketed_host nl) then Inl ValueError
         else Inr (fst (split_scheme v), nl, path_part y))"
  by (simp add: urlsplit_def split_core_def path_part_def Let_def case_prod_beta)

lemma path_part_plain:
  "CHR ''?'' \<notin> set y \<Longrightarrow> CHR ''#'' \<notin> set y \<Longrightarrow> path_part y = y"
  by (simp add: path_part_def)

lemma path_part_tail:
  assumes "c = CHR ''?'' \<or> c = CHR ''#''" and "CHR ''?'' \<notin> set y" and "CHR ''#'' \<notin> set y"
  shows "path_part (y @ c # t) = y"
proof -
  from assms(1) consider "c = CHR ''#''" | "c = CHR ''?''" by blast
  then show ?thesis
  proof cases
    case 1
    with assms(2,3) show ?thesis
      by (simp add: path_part_def Let_def split_once_def takeWhile_stop)
  next
    case 2
    with assms(2,3) show ?thesis
      by (simp add: path_part_def Let_def split_once_def takeWhile_stop takeWhile_pass)
  qed
qed

lemma urlsplit_tail:
  assumes c: "c = CHR ''?'' \<or> c = CHR ''#''"
    and u: "CHR ''?'' \<notin> set u" "CHR ''#'' \<notin> set u"
  shows "split_core (urlsplit ok (u @ c # t)) = split_core (urlsplit ok u)"
proof -
  define v where "v = remove_unsafe (lstrip_c0 u)"
  define t' where "t' = remove_unsafe t"
  define x where "x = snd (split_scheme v)"
  have v': "remove_unsafe (lstrip_c0 (u @ c # t)) = v @ c # t'"
    unfolding v_def t'_def using c by (rule cleaned_tail)
  have v_set: "CHR ''?'' \<notin> set v" "CHR ''#'' \<notin> set v"
    using u set_cleaned [of u] unfolding v_def by auto
  then have x_set: "CHR ''?'' \<notin> set x" "CHR ''#'' \<notin> set x"
    using set_split_scheme [of v] unfolding x_def by auto
  have sp: "split_scheme (v @ c # t') = (fst (split_scheme v), x @ c # t')"
    unfolding x_def using c by (rule split_scheme_tail)
  from c have cs: "c \<noteq> CHR ''/''" by auto
  have A: "split_core (urlsplit ok (u @ c # t)) =
     (let has_netloc = (take 2 (x @ c # t') = ''//'');
          nl = (if has_netloc then fst (splitnetloc (x @ c # t')) else []);
          y = (if has_netloc then snd (splitnetloc (x @ c # t')) else x @ c # t')
      in if has_netloc \<and> (CHR ''['' \<in> set nl) \<noteq> (CHR '']'' \<in> set nl) then Inl ValueError
         else if has_netloc \<and> CHR ''['' \<in> set nl \<and> CHR '']'' \<in> set nl \<and>
                 \<not> ok (bracketed_host nl) then Inl ValueError
         else Inr (fst (split_scheme v), nl, path_part y))"
    unfolding urlsplit_core v' by (simp add: sp Let_def)
  have B: "split_core (urlsplit ok u) =
     (let has_netloc = (take 2 x = ''//'');
          nl = (if has_netloc then fst (splitnetloc x) else []);
          y = (if has_netloc then snd (splitnetloc x) else x)
      in if has_netloc \<and> (CHR ''['' \<in> set nl) \<noteq> (CHR '']'' \<in> set nl) then Inl ValueError
         else if has_netloc \<and> CHR ''['' \<in> set nl \<and> CHR '']'' \<in> set nl \<and>
                 \<not> ok (bracketed_host nl) then Inl ValueError
         else Inr (fst (split_scheme v), nl, path_part y))"
    unfolding urlsplit_core v_def [symmetric] by (simp add: Let_def x_def)
  show ?thesis
  proof (cases "take 2 x = ''//''")
    case True
    define y where "y = snd (splitnetloc x)"
    have y_set: "CHR ''?'' \<notin> set y" "CHR ''#'' \<notin> set y"
      using x_set set_splitnetloc [of x] unfolding y_def by auto
    have nl: "splitnetloc (x @ c # t') = (fst (splitnetloc x), y @ c # t')"
      unfolding y_def using c True by (rule splitnetloc_tail)
    have T: "(take 2 (x @ c # t') = ''//'') = True"
      using True unfolding take2_tail [OF cs] by simp
    have p1: "path_part (y @ c # t') = y"
      using c y_set by (rule path_part_tail)
    have p2: "path_part y = y"
      using y_set by (rule path_part_plain)
    show ?thesis
      unfolding A B T nl Let_def using True p1 p2
      by (simp add: y_def [symmetric])
  next
    case False
    have F: "(take 2 (x @ c # t') = ''//'') = False"
      using False unfolding take2_tail [OF cs] by simp
    have p1: "path_part (x @ c # t') = x"
      using c x_set by (rule path_part_tail)
    have p2: "path_part x = x"
      using x_set by (rule path_part_plain)
    show ?thesis
      unfolding A B F Let_def using False p1 p2 by simp
  qed
qed

lemma normalize_link_tail:
  assumes c: "c = CHR ''?'' \<or> c = CHR ''#''"
    and u: "CHR ''?'' \<notin> set u" "CHR ''#'' \<notin> set u"
  shows "normalize_link ok (u @ c # t) = normalize_link ok u"
proof -
  have n: "normalize_link ok l =
      (case split_core (urlsplit ok l) of
         Inl e \<Rightarrow> Inl e
       | Inr (s, n, p) \<Rightarrow>
           Inr (s @ ''://'' @ n @
                rstrip_slash (if s \<in> set uses_params \<and> CHR '';'' \<in> set p
                              then fst (splitparams p) else p)))" for l
    by (auto simp: normalize_link_def urlparse_def split_core_def url_string_def
        split: sum.splits prod.splits)
  show ?thesis
    unfolding n urlsplit_tail [OF c u] ..
qed

section \<open>Normalization rules\<close>

lemma normalize_link_parsed:
  "urlparse ok link = Inr p \<Longrightarrow>
   normalize_link ok link = Inr (scheme p @ ''://'' @ netloc p @ rstrip_slash (path p))"
  by (simp add: normalize_link_def url_string_def)

text \<open>
  C3. A telegram link is a link that contains \<open>t.me\<close>. When the path of such a link
  begins with one of the reserved prefixes, the canonical form is the scheme, \<open>://\<close>,
  the host and the whole path without its trailing slashes. Otherwise, when the host
  is \<open>t.me\<close> and the second segment of the path is numeric, the canonical form is
  cut down to the first segment, so that the two message links of
  \<open>examplechannel\<close> have the canonical form of the channel; the invite link keeps
  its full path.
\<close>

theorem telegram_special_rule:
  assumes "contains ''t.me'' link" and "urlparse ok link = Inr p"
  shows "(list_ex (startswith (path p)) special_prefixes \<longrightarrow>
            normalized ok link = Inr (scheme p @ ''://'' @ netloc p @ rstrip_slash (path p)))
       \<and> (\<not> list_ex (startswith (path p)) special_prefixes \<and> netloc p = ''t.me'' \<and>
            3 \<le> length (split slash (path p)) \<and> isdigit (split slash (path p) ! 2) \<longrightarrow>
            normalized ok link = Inr (scheme p @ ''://'' @ netloc p @ ''/'' @ split slash (path p) ! 1))
       \<and> normalized ok ''https://t.me/examplechannel/12345'' = Inr ''https://t.me/examplechannel''
       \<and> normalized ok ''https://t.me/examplechannel/67890'' = Inr ''https://t.me/examplechannel''
       \<and> normalized ok ''https://t.me/joinchat/ABC123'' = Inr ''https://t.me/joinchat/ABC123''"
proof -
  have n: "normalized ok link = normalize_telegram_channel ok link"
    using assms(1) by (simp add: normalized_def)
  have e1: "normalized ok ''https://t.me/examplechannel/12345'' = Inr ''https://t.me/examplechannel''"
    by code_simp
  have e2: "normalized ok ''https://t.me/examplechannel/67890'' = Inr ''https://t.me/examplechannel''"
    by code_simp
  have e3: "normalized ok ''https://t.me/joinchat/ABC123'' = Inr ''https://t.me/joinchat/ABC123''"
    by code_simp
  show ?thesis
    using e1 e2 e3
    by (simp add: n normalize_telegram_channel_cases [OF assms(2)] url_string_def)
qed

theorem telegram_special_rule_witness:
  "contains ''t.me'' ''https://t.me/joinchat/ABC123/'' \<and>
   urlparse no_check ''https://t.me/joinchat/ABC123/'' =
     Inr \<lparr>scheme = ''https'', netloc = ''t.me'', path = ''/joinchat/ABC123/'', params = [],
          query = [], fragment = []\<rparr> \<and>
   list_ex (startswith ''/joinchat/ABC123/'') special_prefixes \<and>
   normalized no_check ''https://t.me/joinchat/ABC123/'' = Inr ''https://t.me/joinchat/ABC123'' \<and>
   contains ''t.me'' ''https://t.me/examplechannel/12345?single'' \<and>
   urlparse no_check ''https://t.me/examplechannel/12345?single'' =
     Inr \<lparr>scheme = ''https'', netloc = ''t.me'', path = ''/examplechannel/12345'', params = [],
          query = ''single'', fragment = []\<rparr> \<and>
   split slash ''/examplechannel/12345'' = [[], ''examplechannel'', ''12345''] \<and>
   normalized no_check ''https://t.me/examplechannel/12345?single'' =
     Inr ''https://t.me/examplechannel''"
proof -
  have c1: "contains ''t.me'' ''https://t.me/joinchat/ABC123/''"
    by code_simp
  have p1: "urlparse no_check ''https://t.me/joinchat/ABC123/'' =
     Inr \<lparr>scheme = ''https'', netloc = ''t.me'', path = ''/joinchat/ABC123/'', params = [],
          query = [], fragment = []\<rparr>"
    by code_simp
  have s1: "list_ex (startswith ''/joinchat/ABC123/'') special_prefixes"
    by code_simp
  have c2: "contains ''t.me'' ''https://t.me/examplechannel/12345?single''"
    by code_simp
  have p2: "urlparse no_check ''https://t.me/examplechannel/12345?single'' =
     Inr \<lparr>scheme = ''https'', netloc = ''t.me'', path = ''/examplechannel/12345'', params = [],
          query = ''single'', fragment = []\<rparr>"
    by code_simp
  have s2: "split slash ''/examplechannel/12345'' = [[], ''examplechannel'', ''12345'']"
    by code_simp
  have d2: "isdigit ''12345''" by code_simp
  have n2: "\<not> list_ex (startswith ''/examplechannel/12345'') special_prefixes"
    by code_simp
  have r1: "rstrip_slash ''/joinchat/ABC123/'' = ''/joinchat/ABC123''"
    by code_simp
  from telegram_special_rule [OF c1 p1] s1 r1
  have a: "normalized no_check ''https://t.me/joinchat/ABC123/'' = Inr ''https://t.me/joinchat/ABC123''"
    by simp
  from telegram_special_rule [OF c2 p2] s2 d2 n2
  have b: "normalized no_check ''https://t.me/examplechannel/12345?single'' =
     Inr ''https://t.me/examplechannel''"
    by simp
  from c1 p1 s1 a c2 p2 s2 b show ?thesis by blast
qed

lemma contains_append: "contains sub u \<Longrightarrow> contains sub (u @ v)"
proof (induction u)
  case Nil
  then show ?case by (cases v) (simp_all add: startswith_def)
next
  case (Cons a u)
  then show ?case
    using startswith_append [of "a # u" sub v] by auto
qed

lemma normalized_parsed:
  assumes "urlparse ok link = Inr p"
  shows "normalized ok link =
     Inr (if contains ''t.me'' link \<and> netloc p = ''t.me'' \<and>
             \<not> list_ex (startswith (path p)) special_prefixes \<and>
             3 \<le> length (split slash (path p)) \<and> isdigit (split slash (path p) ! 2)
          then scheme p @ ''://'' @ netloc p @ ''/'' @ split slash (path p) ! 1
          else scheme p @ ''://'' @ netloc p @ rstrip_slash (path p))"
  using assms
  by (auto simp: normalized_def normalize_telegram_channel_cases normalize_link_parsed
      url_string_def)

text \<open>
  C4. A link that is not one of the telegram special cases (it does not contain
  \<open>t.me\<close>, or its host is not \<open>t.me\<close>, or its path begins with a reserved prefix, or
  its second segment is not numeric) has the canonical form made of the scheme,
  \<open>://\<close>, the host and the path without its trailing slashes: neither the query nor
  the fragment is part of it. Appending a query or a fragment to a link that has
  neither, and that does not become a telegram link by it, leaves the canonical form
  as it was. The page with \<open>?utm=abc#frag\<close> and the page without it have the same
  canonical form.
\<close>

theorem general_rule:
  "(urlparse ok link = Inr p \<and>
    \<not> (contains ''t.me'' link \<and> netloc p = ''t.me'' \<and>
       \<not> list_ex (startswith (path p)) special_prefixes \<and>
       3 \<le> length (split slash (path p)) \<and> isdigit (split slash (path p) ! 2)) \<longrightarrow>
    normalized ok link = Inr (scheme p @ ''://'' @ netloc p @ rstrip_slash (path p)))
   \<and> ((c = CHR ''?'' \<or> c = CHR ''#'') \<and> CHR ''?'' \<notin> set u \<and> CHR ''#'' \<notin> set u \<and>
       \<not> contains ''t.me'' (u @ c # t) \<longrightarrow>
       normalized ok (u @ c # t) = normalized ok u)
   \<and> normalized ok ''https://example.com/page?utm=abc#frag'' = Inr ''https://example.com/page''
   \<and> normalized ok ''https://example.com/page'' = Inr ''https://example.com/page''"
proof (intro conjI impI)
  assume "urlparse ok link = Inr p \<and>
    \<not> (contains ''t.me'' link \<and> netloc p = ''t.me'' \<and>
       \<not> list_ex (startswith (path p)) special_prefixes \<and>
       3 \<le> length (split slash (path p)) \<and> isdigit (split slash (path p) ! 2))"
  then show "normalized ok link = Inr (scheme p @ ''://'' @ netloc p @ rstrip_slash (path p))"
    using normalized_parsed [of ok link p] by auto
next
  assume a: "(c = CHR ''?'' \<or> c = CHR ''#'') \<and> CHR ''?'' \<notin> set u \<and> CHR ''#'' \<notin> set u \<and>
       \<not> contains ''t.me'' (u @ c # t)"
  then have "\<not> contains ''t.me'' u"
    using contains_append by blast
  with a show "normalized ok (u @ c # t) = normalized ok u"
    by (simp add: normalized_def normalize_link_tail)
next
  show "normalized ok ''https://example.com/page?utm=abc#frag'' = Inr ''https://example.com/page''"
    by code_simp
next
  show "normalized ok ''https://example.com/page'' = Inr ''https://example.com/page''"
    by code_simp
qed

theorem general_rule_witness:
  "urlparse no_check ''https://chat.whatsapp.com/Abc/?x=1;y#top'' =
     Inr \<lparr>scheme = ''https'', netloc = ''chat.whatsapp.com'', path = ''/Abc/'', params = [],
          query = ''x=1;y'', fragment = ''top''\<rparr> \<and>
   contains ''t.me'' ''https://chat.whatsapp.com/Abc/?x=1;y#top'' = False \<and>
   normalized no_check ''https://chat.whatsapp.com/Abc/?x=1;y#top'' =
     Inr ''https://chat.whatsapp.com/Abc'' \<and>
   normalized no_check (''https://chat.whatsapp.com/Abc/'' @ CHR ''?'' # ''x=1;y#top'') =
     normalized no_check ''https://chat.whatsapp.com/Abc/''"
proof -
  have p: "urlparse no_check ''https://chat.whatsapp.com/Abc/?x=1;y#top'' =
     Inr \<lparr>scheme = ''https'', netloc = ''chat.whatsapp.com'', path = ''/Abc/'', params = [],
          query = ''x=1;y'', fragment = ''top''\<rparr>"
    by code_simp
  have c: "contains ''t.me'' ''https://chat.whatsapp.com/Abc/?x=1;y#top'' = False"
    by code_simp
  have r: "rstrip_slash ''/Abc/'' = ''/Abc''"
    by code_simp
  have c': "\<not> contains ''t.me'' (''https://chat.whatsapp.com/Abc/'' @ CHR ''?'' # ''x=1;y#top'')"
    using c by simp
  have g: "normalized no_check ''https://chat.whatsapp.com/Abc/?x=1;y#top'' =
     Inr ''https://chat.whatsapp.com/Abc''"
    using general_rule [of no_check "''https://chat.whatsapp.com/Abc/?x=1;y#top''" _
        "CHR ''?''" "[]" "[]"] p c r
    by simp
  have h: "normalized no_check (''https://chat.whatsapp.com/Abc/'' @ CHR ''?'' # ''x=1;y#top'') =
     normalized no_check ''https://chat.whatsapp.com/Abc/''"
    using general_rule [of no_check "[]" "\<lparr>scheme = [], netloc = [], path = [], params = [],
          query = [], fragment = []\<rparr>" "CHR ''?''" "''https://chat.whatsapp.com/Abc/''" "''x=1;y#top''"] c'
    by simp
  from p c g h show ?thesis by blast
qed

section \<open>Facts about the store\<close>

lemma conflicts_insert_values:
  "list_ex (conflicts (insert_values nm l c s now)) rows \<longleftrightarrow> nm \<in> stored_for (chat_id c) rows"
  by (auto simp: list_ex_iff conflicts_def insert_values_def stored_for_def rows_of_def)

lemma stored_for_append:
  "stored_for g (xs @ ys) = stored_for g xs \<union> stored_for g ys"
  by (auto simp: stored_for_def rows_of_def)

lemma stored_for_new:
  "stored_for (chat_id c) [insert_values nm l c s now\<lparr>row_id := i\<rparr>] = {nm}"
  by (simp add: stored_for_def rows_of_def insert_values_def)

text \<open>One round of the loop that does not raise.\<close>

lemma insert_loop_Cons:
  assumes "insert_loop ok (l # rest) (Some c) (Some s) n pending w = (Inr res, w')"
  obtains nm where "normalized ok l = Inr nm" and "\<not> fault w (ops w)" and "table_created w"
    and "insert_loop ok rest (Some c) (Some s)
           (if nm \<in> stored_for (chat_id c) (links w @ pending) then n else Suc n)
           (if nm \<in> stored_for (chat_id c) (links w @ pending) then pending
            else pending @ [insert_values nm l c s (utcnow w (clock w))
                              \<lparr>row_id := next_id (links w @ pending)\<rparr>])
           (w\<lparr>clock := Suc (clock w), ops := Suc (ops w)\<rparr>) = (Inr res, w')"
proof -
  from assms obtain nm where nm: "normalized ok l = Inr nm"
    by (cases "normalized ok l") auto
  from assms nm have f: "\<not> fault w (ops w)" and tc: "table_created w"
    by (auto simp: execute_insert_def Let_def split: if_splits)
  from assms nm f tc have "insert_loop ok rest (Some c) (Some s)
           (if nm \<in> stored_for (chat_id c) (links w @ pending) then n else Suc n)
           (if nm \<in> stored_for (chat_id c) (links w @ pending) then pending
            else pending @ [insert_values nm l c s (utcnow w (clock w))
                              \<lparr>row_id := next_id (links w @ pending)\<rparr>])
           (w\<lparr>clock := Suc (clock w), ops := Suc (ops w)\<rparr>) = (Inr res, w')"
    by (auto simp: execute_insert_def Let_def conflicts_insert_values stored_for_append
        split: if_splits)
  with nm f tc show thesis by (rule that)
qed


lemma canonical_links_Cons:
  "normalized ok l = Inr nm \<Longrightarrow> canonical_links ok (l # ls) = insert nm (canonical_links ok ls)"
  by (simp add: canonical_links_def)

lemma insert_loop_frame:
  assumes "insert_loop ok ls (Some c) (Some s) n pending w = (Inr res, w')"
  shows "links w' = links w \<and> table_created w' = table_created w \<and>
         open_conns w' = open_conns w \<and> console w' = console w \<and> fault w' = fault w \<and>
         utcnow w' = utcnow w \<and> ops w' = ops w + length ls \<and> clock w' = clock w + length ls"
  using assms
proof (induction ls arbitrary: n pending w)
  case Nil
  then show ?case by simp
next
  case (Cons l rest)
  from Cons.prems show ?case
  proof (rule insert_loop_Cons)
    fix nm
    assume "insert_loop ok rest (Some c) (Some s)
           (if nm \<in> stored_for (chat_id c) (links w @ pending) then n else Suc n)
           (if nm \<in> stored_for (chat_id c) (links w @ pending) then pending
            else pending @ [insert_values nm l c s (utcnow w (clock w))
                              \<lparr>row_id := next_id (links w @ pending)\<rparr>])
           (w\<lparr>clock := Suc (clock w), ops := Suc (ops w)\<rparr>) = (Inr res, w')"
    from Cons.IH [OF this] show ?thesis by simp
  qed
qed

lemma insert_loop_result:
  assumes "insert_loop ok ls (Some c) (Some s) n pending w = (Inr (n', pending'), w')"
  shows "\<exists>new. pending' = pending @ new \<and> n' = n + length new \<and>
           list_all (\<lambda>r. group_id r = Some (chat_id c)) new \<and>
           distinct (map normalized_link new) \<and>
           set (map normalized_link new) =
             canonical_links ok ls - stored_for (chat_id c) (links w @ pending) \<and>
           list_all (\<lambda>l. \<exists>nm. normalized ok l = Inr nm) ls"
  using assms
proof (induction ls arbitrary: n pending w)
  case Nil
  then show ?case by (simp add: canonical_links_def)
next
  case (Cons l rest)
  from Cons.prems show ?case
  proof (rule insert_loop_Cons)
    fix nm
    define w1 where "w1 = w\<lparr>clock := Suc (clock w), ops := Suc (ops w)\<rparr>"
    define row where "row = insert_values nm l c s (utcnow w (clock w))
                              \<lparr>row_id := next_id (links w @ pending)\<rparr>"
    assume nm: "normalized ok l = Inr nm"
    assume "insert_loop ok rest (Some c) (Some s)
           (if nm \<in> stored_for (chat_id c) (links w @ pending) then n else Suc n)
           (if nm \<in> stored_for (chat_id c) (links w @ pending) then pending
            else pending @ [insert_values nm l c s (utcnow w (clock w))
                              \<lparr>row_id := next_id (links w @ pending)\<rparr>])
           (w\<lparr>clock := Suc (clock w), ops := Suc (ops w)\<rparr>) = (Inr (n', pending'), w')"
    then have run: "insert_loop ok rest (Some c) (Some s)
           (if nm \<in> stored_for (chat_id c) (links w @ pending) then n else Suc n)
           (if nm \<in> stored_for (chat_id c) (links w @ pending) then pending
            else pending @ [row]) w1 = (Inr (n', pending'), w')"
      unfolding w1_def row_def .
    have lw: "links w1 = links w" by (simp add: w1_def)
    have cl: "canonical_links ok (l # rest) = insert nm (canonical_links ok rest)"
      using nm by (rule canonical_links_Cons)
    show ?thesis
    proof (cases "nm \<in> stored_for (chat_id c) (links w @ pending)")
      case True
      with run have "insert_loop ok rest (Some c) (Some s) n pending w1 = (Inr (n', pending'), w')"
        by simp
      from Cons.IH [OF this] obtain new where new: "pending' = pending @ new"
        "n' = n + length new" "list_all (\<lambda>r. group_id r = Some (chat_id c)) new"
        "distinct (map normalized_link new)"
        "set (map normalized_link new) =
           canonical_links ok rest - stored_for (chat_id c) (links w1 @ pending)"
        "list_all (\<lambda>l. \<exists>nm. normalized ok l = Inr nm) rest"
        by blast
      from new(5) True have "set (map normalized_link new) =
           canonical_links ok (l # rest) - stored_for (chat_id c) (links w @ pending)"
        unfolding cl lw by blast
      with new nm show ?thesis by auto
    next
      case False
      with run have "insert_loop ok rest (Some c) (Some s) (Suc n) (pending @ [row]) w1 =
          (Inr (n', pending'), w')"
        by simp
      from Cons.IH [OF this] obtain new where new: "pending' = (pending @ [row]) @ new"
        "n' = Suc n + length new" "list_all (\<lambda>r. group_id r = Some (chat_id c)) new"
        "distinct (map normalized_link new)"
        "set (map normalized_link new) =
           canonical_links ok rest - stored_for (chat_id c) (links w1 @ pending @ [row])"
        "list_all (\<lambda>l. \<exists>nm. normalized ok l = Inr nm) rest"
        by blast
      have st: "stored_for (chat_id c) (links w1 @ pending @ [row]) =
          insert nm (stored_for (chat_id c) (links w @ pending))"
        by (simp add: stored_for_append lw row_def stored_for_new)
      have rn: "normalized_link row = nm" and rg: "group_id row = Some (chat_id c)"
        by (simp_all add: row_def insert_values_def)
      from new(5) have fresh: "nm \<notin> set (map normalized_link new)"
        unfolding st by blast
      from new(5) False have s5: "set (map normalized_link (row # new)) =
           canonical_links ok (l # rest) - stored_for (chat_id c) (links w @ pending)"
        unfolding cl st by (auto simp: rn)
      have "pending' = pending @ (row # new)" using new(1) by simp
      moreover have "n' = n + length (row # new)" using new(2) by simp
      moreover have "list_all (\<lambda>r. group_id r = Some (chat_id c)) (row # new)"
        using new(3) rg by simp
      moreover have "distinct (map normalized_link (row # new))"
        using new(4) fresh rn by simp
      moreover have "list_all (\<lambda>l. \<exists>nm. normalized ok l = Inr nm) (l # rest)"
        using new(6) nm by simp
      ultimately show ?thesis using s5 by blast
    qed
  qed
qed


text \<open>Whatever the outcome, the loop commits nothing and closes nothing.\<close>

lemma insert_loop_links:
  "links (snd (insert_loop ok ls chat sender n pending w)) = links w \<and>
   open_conns (snd (insert_loop ok ls chat sender n pending w)) = open_conns w \<and>
   console (snd (insert_loop ok ls chat sender n pending w)) = console w"
proof (induction ls arbitrary: n pending w)
  case Nil
  show ?case by simp
next
  case (Cons l rest)
  show ?case
  proof (cases "normalized ok l")
    case (Inl e)
    then show ?thesis by simp
  next
    case (Inr nm)
    show ?thesis
    proof (cases chat)
      case None
      with Inr show ?thesis by simp
    next
      case c: (Some c)
      show ?thesis
      proof (cases sender)
        case None
        with Inr c show ?thesis by simp
      next
        case s: (Some s)
        define w1 where "w1 = w\<lparr>clock := Suc (clock w)\<rparr>"
        obtain r w2 where ex: "execute_insert (insert_values nm l c s (utcnow w (clock w)))
            pending w1 = (r, w2)"
          by (cases "execute_insert (insert_values nm l c s (utcnow w (clock w))) pending w1")
        then have w2: "w2 = w1\<lparr>ops := Suc (ops w1)\<rparr>"
          by (auto simp: execute_insert_def Let_def split: if_splits)
        then have fr: "links w2 = links w" "open_conns w2 = open_conns w" "console w2 = console w"
          by (simp_all add: w1_def)
        show ?thesis
          using Inr c s ex fr Cons.IH [of _ _ w2]
          by (auto simp: Let_def w1_def [symmetric] split: sum.splits)
      qed
    qed
  qed
qed

lemma insert_loop_needs_chat:
  assumes "insert_loop ok ls chat sender n pending w = (Inr res, w')" and "ls \<noteq> []"
  shows "\<exists>c s. chat = Some c \<and> sender = Some s"
proof -
  from assms(2) obtain l rest where ls: "ls = l # rest" by (cases ls) auto
  show ?thesis
    using assms(1) unfolding ls
    by (cases chat; cases sender) (auto simp: Let_def split: sum.splits)
qed

lemma insert_loop_succeeds:
  assumes "list_all (\<lambda>l. \<exists>nm. normalized ok l = Inr nm) ls"
    and "table_created w \<or> ls = []" and "\<forall>k\<ge>ops w. \<not> fault w k"
  shows "\<exists>res w'. insert_loop ok ls (Some c) (Some s) n pending w = (Inr res, w')"
  using assms
proof (induction ls arbitrary: n pending w)
  case Nil
  show ?case by simp
next
  case (Cons l rest)
  from Cons.prems(1) obtain nm where nm: "normalized ok l = Inr nm" by auto
  from Cons.prems(2) have tc: "table_created w" by simp
  from Cons.prems(3) have nf: "\<not> fault w (ops w)" by simp
  define w2 where "w2 = w\<lparr>clock := Suc (clock w), ops := Suc (ops w)\<rparr>"
  have rest: "\<exists>res w'. insert_loop ok rest (Some c) (Some s) n' pending' w2 = (Inr res, w')"
    for n' pending'
  proof (rule Cons.IH)
    show "list_all (\<lambda>l. \<exists>nm. normalized ok l = Inr nm) rest"
      using Cons.prems(1) by simp
    show "table_created w2 \<or> rest = []" using tc by (simp add: w2_def)
    show "\<forall>k\<ge>ops w2. \<not> fault w2 k" using Cons.prems(3) by (simp add: w2_def)
  qed
  show ?case
    using nm tc nf rest
    by (auto simp: Let_def execute_insert_def w2_def)
qed


text \<open>The three steps of a call of \<open>save_links_to_db\<close> that returns.\<close>

lemma save_links_to_db_Inr:
  assumes "save_links_to_db ok ls chat sender w = (Inr n, w')"
  obtains pending w2 where "\<not> fault w (ops w)"
    and "insert_loop ok ls chat sender 0 [] (w\<lparr>ops := Suc (ops w), open_conns := Suc (open_conns w)\<rparr>)
           = (Inr (n, pending), w2)"
    and "\<not> fault w2 (ops w2)"
    and "w' = w2\<lparr>ops := Suc (ops w2), links := links w2 @ pending,
                 open_conns := open_conns w2 - 1\<rparr>"
proof -
  from assms have nf: "\<not> fault w (ops w)"
    by (auto simp: save_links_to_db_def connect_def split: if_splits)
  define w1 where "w1 = w\<lparr>ops := Suc (ops w), open_conns := Suc (open_conns w)\<rparr>"
  from nf have co: "connect w = (Inr (), w1)"
    by (simp add: connect_def w1_def)
  obtain r w2 where lo: "insert_loop ok ls chat sender 0 [] w1 = (r, w2)"
    by (cases "insert_loop ok ls chat sender 0 [] w1")
  from assms co lo obtain pending where r: "r = Inr (n, pending)"
    by (cases r) (auto simp: save_links_to_db_def split: prod.splits sum.splits)
  from assms co lo r have nf2: "\<not> fault w2 (ops w2)"
    by (auto simp: save_links_to_db_def commit_def split: if_splits)
  from assms co lo r nf2 have "w' = w2\<lparr>ops := Suc (ops w2), links := links w2 @ pending,
                 open_conns := open_conns w2 - 1\<rparr>"
    by (auto simp: save_links_to_db_def commit_def close_def)
  with nf lo r nf2 show thesis
    unfolding w1_def by (rule_tac that) auto
qed

lemma save_links_to_db_result:
  assumes "save_links_to_db ok ls (Some c) (Some s) w = (Inr n, w')"
  shows "\<exists>new. links w' = links w @ new \<and> n = length new \<and>
           list_all (\<lambda>r. group_id r = Some (chat_id c)) new \<and>
           distinct (map normalized_link new) \<and>
           set (map normalized_link new) =
             canonical_links ok ls - stored_for (chat_id c) (links w) \<and>
           list_all (\<lambda>l. \<exists>nm. normalized ok l = Inr nm) ls"
  using assms
proof (rule save_links_to_db_Inr)
  fix pending w2
  define w1 where "w1 = w\<lparr>ops := Suc (ops w), open_conns := Suc (open_conns w)\<rparr>"
  assume "insert_loop ok ls (Some c) (Some s) 0 []
      (w\<lparr>ops := Suc (ops w), open_conns := Suc (open_conns w)\<rparr>) = (Inr (n, pending), w2)"
  then have lo: "insert_loop ok ls (Some c) (Some s) 0 [] w1 = (Inr (n, pending), w2)"
    unfolding w1_def .
  assume w': "w' = w2\<lparr>ops := Suc (ops w2), links := links w2 @ pending,
                 open_conns := open_conns w2 - 1\<rparr>"
  from insert_loop_frame [OF lo] have l2: "links w2 = links w"
    by (simp add: w1_def)
  from insert_loop_result [OF lo] obtain new where new: "pending = [] @ new"
    "n = 0 + length new" "list_all (\<lambda>r. group_id r = Some (chat_id c)) new"
    "distinct (map normalized_link new)"
    "set (map normalized_link new) =
       canonical_links ok ls - stored_for (chat_id c) (links w1 @ [])"
    "list_all (\<lambda>l. \<exists>nm. normalized ok l = Inr nm) ls"
    by blast
  have "links w1 = links w" by (simp add: w1_def)
  with new w' l2 show ?thesis by auto
qed

lemma save_links_to_db_frame:
  assumes "save_links_to_db ok ls chat sender w = (Inr n, w')"
  shows "open_conns w' = open_conns w \<and> console w' = console w \<and>
         table_created w' = table_created w \<and> fault w' = fault w \<and>
         ops w' = ops w + length ls + 2 \<and> (ls \<noteq> [] \<longrightarrow> table_created w)"
  using assms
proof (rule save_links_to_db_Inr)
  fix pending w2
  assume lo: "insert_loop ok ls chat sender 0 []
      (w\<lparr>ops := Suc (ops w), open_conns := Suc (open_conns w)\<rparr>) = (Inr (n, pending), w2)"
  assume w': "w' = w2\<lparr>ops := Suc (ops w2), links := links w2 @ pending,
                 open_conns := open_conns w2 - 1\<rparr>"
  show ?thesis
  proof (cases "ls = []")
    case True
    with lo w' show ?thesis by auto
  next
    case False
    with lo obtain c s where cs: "chat = Some c" "sender = Some s"
      using insert_loop_needs_chat by blast
    from False obtain l rest where ls: "ls = l # rest" by (cases ls) auto
    from lo have "table_created w"
      unfolding cs ls by (rule insert_loop_Cons) simp
    with insert_loop_frame [OF lo [unfolded cs]] w' show ?thesis by simp
  qed
qed

lemma save_links_to_db_committed:
  "save_links_to_db ok ls chat sender w = (Inl e, w') \<Longrightarrow>
   links w' = links w \<and> console w' = console w"
  using insert_loop_links [of ok ls chat sender 0 "[]"
      "w\<lparr>ops := Suc (ops w), open_conns := Suc (open_conns w)\<rparr>"]
  by (auto simp: save_links_to_db_def connect_def commit_def close_def
      split: if_splits prod.splits sum.splits)

lemma save_links_to_db_succeeds:
  assumes "list_all (\<lambda>l. \<exists>nm. normalized ok l = Inr nm) ls"
    and "table_created w \<or> ls = []" and "\<forall>k\<ge>ops w. \<not> fault w k"
  shows "\<exists>n w'. save_links_to_db ok ls (Some c) (Some s) w = (Inr n, w')"
proof -
  define w1 where "w1 = w\<lparr>ops := Suc (ops w), open_conns := Suc (open_conns w)\<rparr>"
  from assms(3) have co: "connect w = (Inr (), w1)"
    by (simp add: connect_def w1_def)
  have "\<exists>res w'. insert_loop ok ls (Some c) (Some s) 0 [] w1 = (Inr res, w')"
    using assms by (intro insert_loop_succeeds) (simp_all add: w1_def)
  then obtain n pending w2 where lo: "insert_loop ok ls (Some c) (Some s) 0 [] w1 =
      (Inr (n, pending), w2)"
    by auto
  from insert_loop_frame [OF lo] assms(3) have "\<not> fault w2 (ops w2)"
    by (simp add: w1_def)
  with co lo show ?thesis
    by (simp add: save_links_to_db_def commit_def)
qed

section \<open>The uniqueness of the pair and idempotence\<close>

lemma rows_of_all:
  "list_all (\<lambda>r. group_id r = Some g) new \<Longrightarrow> rows_of g new = new"
  by (simp add: rows_of_def list_all_iff)

lemma stored_for_all:
  "list_all (\<lambda>r. group_id r = Some g) new \<Longrightarrow> stored_for g new = set (map normalized_link new)"
  by (simp add: stored_for_def rows_of_all)

lemma stored_for_Nil: "stored_for g [] = {}"
  by (simp add: stored_for_def rows_of_def)

lemma unique_pairs_append:
  assumes "unique_pairs rows" and "list_all (\<lambda>r. group_id r = Some g) new"
    and "distinct (map normalized_link new)"
    and "set (map normalized_link new) \<inter> stored_for g rows = {}"
  shows "unique_pairs (rows @ new)"
proof -
  have k: "map key new = map (\<lambda>r. (normalized_link r, Some g)) new"
    using assms(2) by (simp add: key_def list_all_iff)
  have "distinct (map (\<lambda>r. (normalized_link r, Some g)) new)"
    using assms(3) by (auto simp: distinct_map inj_on_def)
  then have d: "distinct (map key new)"
    by (simp only: k)
  have "set (map key rows) \<inter> set (map key new) = {}"
  proof (rule ccontr)
    assume "set (map key rows) \<inter> set (map key new) \<noteq> {}"
    then obtain k where "k \<in> key ` set rows" "k \<in> key ` set new"
      by auto
    then obtain r r' where r: "r \<in> set rows" "r' \<in> set new" "key r = key r'"
      by (metis imageE)
    from r(2) assms(2) have g': "group_id r' = Some g" by (simp add: list_all_iff)
    from r(3) have eq: "normalized_link r = normalized_link r'"
      by (simp add: key_def)
    from r(3) g' have "group_id r = Some g"
      by (simp add: key_def)
    with r(1) have "r \<in> {x \<in> set rows. group_id x = Some g}" by simp
    then have "normalized_link r \<in> normalized_link ` {x \<in> set rows. group_id x = Some g}"
      by (rule imageI)
    then have "normalized_link r \<in> stored_for g rows"
      by (simp add: stored_for_def rows_of_def)
    then have "normalized_link r' \<in> stored_for g rows"
      unfolding eq .
    moreover from r(2) have "normalized_link r' \<in> set (map normalized_link new)"
      by simp
    ultimately have "normalized_link r' \<in> set (map normalized_link new) \<inter> stored_for g rows"
      by blast
    with assms(4) show False by blast
  qed
  with d assms(1) show ?thesis
    by (simp add: unique_pairs_def)
qed

lemma save_links_to_db_Nil:
  "save_links_to_db ok [] chat sender w = (Inr n, w') \<Longrightarrow> n = 0 \<and> links w' = links w"
  by (auto simp: save_links_to_db_def connect_def commit_def close_def split: if_splits)

lemma save_links_to_db_unique:
  assumes "unique_pairs (links w)"
  shows "unique_pairs (links (snd (save_links_to_db ok ls chat sender w)))"
proof (cases "save_links_to_db ok ls chat sender w")
  case (Pair r w')
  show ?thesis
  proof (cases r)
    case (Inl e)
    with Pair assms show ?thesis
      using save_links_to_db_committed [of ok ls chat sender w e w'] by simp
  next
    case (Inr n)
    show ?thesis
    proof (cases "ls = []")
      case True
      with Pair Inr assms show ?thesis
        using save_links_to_db_Nil [of ok chat sender w n w'] by simp
    next
      case False
      from Pair Inr have run: "save_links_to_db ok ls chat sender w = (Inr n, w')" by simp
      then obtain c s where cs: "chat = Some c" "sender = Some s"
        using False by (auto elim!: save_links_to_db_Inr dest: insert_loop_needs_chat)
      from save_links_to_db_result [OF run [unfolded cs]] obtain new
        where new: "links w' = links w @ new"
          "list_all (\<lambda>r. group_id r = Some (chat_id c)) new"
          "distinct (map normalized_link new)"
          "set (map normalized_link new) =
             canonical_links ok ls - stored_for (chat_id c) (links w)"
        by blast
      from new(4) have "set (map normalized_link new) \<inter> stored_for (chat_id c) (links w) = {}"
        by blast
      with assms new(2,3) have "unique_pairs (links w @ new)"
        by (rule unique_pairs_append)
      with Pair new(1) show ?thesis by simp
    qed
  qed
qed

lemma fold_save_unique:
  assumes "unique_pairs (links w)"
  shows "unique_pairs (links (fold (\<lambda>b v. snd (save_links_to_db ok (fst b) (fst (snd b))
                                              (snd (snd b)) v)) batches w))"
  using assms
  by (induction batches arbitrary: w) (simp_all add: save_links_to_db_unique)


lemma save_single_stored:
  assumes "save_links_to_db ok [l] (Some c) (Some s) w = (Inr n, w')"
    and "normalized ok l = Inr nm" and "nm \<in> stored_for (chat_id c) (links w)"
  shows "n = 0 \<and> links w' = links w"
proof -
  from save_links_to_db_result [OF assms(1)] obtain new where new: "links w' = links w @ new"
    "n = length new"
    "set (map normalized_link new) = canonical_links ok [l] - stored_for (chat_id c) (links w)"
    by blast
  from assms(2) have "canonical_links ok [l] = {nm}"
    by (simp add: canonical_links_def)
  with new(3) assms(3) have "new = []" by simp
  with new show ?thesis by simp
qed

lemma save_single_new:
  assumes "save_links_to_db ok [l] (Some c) (Some s) w = (Inr n, w')"
    and "normalized ok l = Inr nm" and "nm \<notin> stored_for (chat_id c) (links w)"
  shows "n = 1 \<and> (\<exists>r. links w' = links w @ [r] \<and> key r = (nm, Some (chat_id c)))"
proof -
  from save_links_to_db_result [OF assms(1)] obtain new where new: "links w' = links w @ new"
    "n = length new" "list_all (\<lambda>r. group_id r = Some (chat_id c)) new"
    "distinct (map normalized_link new)"
    "set (map normalized_link new) = canonical_links ok [l] - stored_for (chat_id c) (links w)"
    by blast
  from assms(2) have "canonical_links ok [l] = {nm}"
    by (simp add: canonical_links_def)
  with new(5) assms(3) have one: "set (map normalized_link new) = {nm}" by auto
  from new(4) have "card (set (map normalized_link new)) = length (map normalized_link new)"
    by (rule distinct_card)
  with one have "length new = 1" by simp
  then obtain r where r: "new = [r]"
    by (cases new) auto
  with one new(3) have "key r = (nm, Some (chat_id c))"
    by (simp add: key_def)
  with r new(1,2) show ?thesis by simp
qed

text \<open>
  C1. No two rows of the table have the same canonical link and the same group id.
  A call of \<open>save_links_to_db\<close> keeps this, whatever it is given and however it ends,
  so it holds after any sequence of calls that starts on the empty table. A candidate
  whose canonical link the group already has adds no row and counts for nothing; a
  canonical link that neither of two groups has, stored for the one and then for the
  other, gives two rows that differ in the group id.
\<close>

theorem unique_pair_invariant:
  "(unique_pairs (links w) \<longrightarrow>
      unique_pairs (links (snd (save_links_to_db ok ls chat sender w))))
   \<and> (links w = [] \<longrightarrow>
       unique_pairs (links (fold (\<lambda>b v. snd (save_links_to_db ok (fst b) (fst (snd b))
                                              (snd (snd b)) v)) batches w)))
   \<and> (save_links_to_db ok [l] (Some c) (Some s) w = (Inr n, w') \<and>
       normalized ok l = Inr nm \<and> nm \<in> stored_for (chat_id c) (links w) \<longrightarrow>
       n = 0 \<and> links w' = links w)
   \<and> (save_links_to_db ok [l] (Some a) (Some s) w = (Inr n1, w1) \<and>
       save_links_to_db ok [l] (Some b) (Some s') w1 = (Inr n2, w2) \<and>
       chat_id a \<noteq> chat_id b \<and> normalized ok l = Inr nm \<and>
       nm \<notin> stored_for (chat_id a) (links w) \<and> nm \<notin> stored_for (chat_id b) (links w) \<longrightarrow>
       n1 = 1 \<and> n2 = 1 \<and>
       (\<exists>r1 r2. links w2 = links w @ [r1, r2] \<and> r1 \<noteq> r2 \<and>
                 key r1 = (nm, Some (chat_id a)) \<and> key r2 = (nm, Some (chat_id b))))"
proof (intro conjI impI)
  assume "unique_pairs (links w)"
  then show "unique_pairs (links (snd (save_links_to_db ok ls chat sender w)))"
    by (rule save_links_to_db_unique)
next
  assume "links w = []"
  then have "unique_pairs (links w)" by (simp add: unique_pairs_def)
  then show "unique_pairs (links (fold (\<lambda>b v. snd (save_links_to_db ok (fst b) (fst (snd b))
                                              (snd (snd b)) v)) batches w))"
    by (rule fold_save_unique)
next
  assume "save_links_to_db ok [l] (Some c) (Some s) w = (Inr n, w') \<and>
       normalized ok l = Inr nm \<and> nm \<in> stored_for (chat_id c) (links w)"
  then have "n = 0 \<and> links w' = links w"
    using save_single_stored by blast
  then show "n = 0" and "links w' = links w" by simp_all
next
  assume h: "save_links_to_db ok [l] (Some a) (Some s) w = (Inr n1, w1) \<and>
       save_links_to_db ok [l] (Some b) (Some s') w1 = (Inr n2, w2) \<and>
       chat_id a \<noteq> chat_id b \<and> normalized ok l = Inr nm \<and>
       nm \<notin> stored_for (chat_id a) (links w) \<and> nm \<notin> stored_for (chat_id b) (links w)"
  then have run1: "save_links_to_db ok [l] (Some a) (Some s) w = (Inr n1, w1)"
    and run2: "save_links_to_db ok [l] (Some b) (Some s') w1 = (Inr n2, w2)"
    and nm: "normalized ok l = Inr nm"
    and na: "nm \<notin> stored_for (chat_id a) (links w)"
    and nb: "nm \<notin> stored_for (chat_id b) (links w)"
    and ab: "chat_id a \<noteq> chat_id b"
    by simp_all
  from save_single_new [OF run1 nm na] obtain r1
    where r1: "n1 = 1" "links w1 = links w @ [r1]" "key r1 = (nm, Some (chat_id a))"
    by blast
  from r1(3) ab have "stored_for (chat_id b) [r1] = {}"
    by (simp add: stored_for_def rows_of_def key_def)
  with nb r1(2) have nb1: "nm \<notin> stored_for (chat_id b) (links w1)"
    by (simp add: stored_for_append)
  from save_single_new [OF run2 nm nb1] obtain r2
    where r2: "n2 = 1" "links w2 = links w1 @ [r2]" "key r2 = (nm, Some (chat_id b))"
    by blast
  from r1(3) r2(3) ab have ne: "r1 \<noteq> r2" by auto
  show "n1 = 1" by (rule r1(1))
  show "n2 = 1" by (rule r2(1))
  from r1 r2 ne show "\<exists>r1 r2. links w2 = links w @ [r1, r2] \<and> r1 \<noteq> r2 \<and>
                 key r1 = (nm, Some (chat_id a)) \<and> key r2 = (nm, Some (chat_id b))"
    by auto
qed


theorem unique_pair_invariant_witness:
  "unique_pairs (links w0) \<and>
   unique_pairs (links (snd (save_links_to_db no_check
       [''https://example.com/a'', ''https://example.com/a/'', ''https://example.com/b'']
       (Some group_a) (Some alice) w0))) \<and>
   fst (save_links_to_db no_check [''https://example.com/a''] (Some group_a) (Some alice) w0) =
     Inr 1 \<and>
   fst (save_links_to_db no_check [''https://example.com/a''] (Some group_b) (Some alice)
       (snd (save_links_to_db no_check [''https://example.com/a''] (Some group_a) (Some alice)
          w0))) = Inr 1 \<and>
   (\<exists>r1 r2.
      links (snd (save_links_to_db no_check [''https://example.com/a''] (Some group_b)
         (Some alice)
         (snd (save_links_to_db no_check [''https://example.com/a''] (Some group_a)
            (Some alice) w0)))) = links w0 @ [r1, r2] \<and> r1 \<noteq> r2 \<and>
      key r1 = (''https://example.com/a'', Some (chat_id group_a)) \<and>
      key r2 = (''https://example.com/a'', Some (chat_id group_b))) \<and>
   fst (save_links_to_db no_check [''https://example.com/a/''] (Some group_a) (Some alice)
       (snd (save_links_to_db no_check [''https://example.com/a''] (Some group_a) (Some alice)
          w0))) = Inr 0 \<and>
   links (snd (save_links_to_db no_check [''https://example.com/a/''] (Some group_a)
       (Some alice)
       (snd (save_links_to_db no_check [''https://example.com/a''] (Some group_a) (Some alice)
          w0)))) =
     links (snd (save_links_to_db no_check [''https://example.com/a''] (Some group_a)
       (Some alice) w0))"
proof -
  let ?a = "''https://example.com/a''"
  let ?w1 = "snd (save_links_to_db no_check [?a] (Some group_a) (Some alice) w0)"
  let ?w2 = "snd (save_links_to_db no_check [?a] (Some group_b) (Some alice) ?w1)"
  let ?w3 = "snd (save_links_to_db no_check [''https://example.com/a/''] (Some group_a)
       (Some alice) ?w1)"
  have u0: "unique_pairs (links w0)" by code_simp
  from unique_pair_invariant [where w = w0 and ok = no_check
      and ls = "[?a, ''https://example.com/a/'', ''https://example.com/b'']"
      and chat = "Some group_a" and sender = "Some alice"]
    u0
  have u1: "unique_pairs (links (snd (save_links_to_db no_check
       [?a, ''https://example.com/a/'', ''https://example.com/b''] (Some group_a) (Some alice)
       w0)))"
    by blast
  have f1: "fst (save_links_to_db no_check [?a] (Some group_a) (Some alice) w0) = Inr 1"
    by code_simp
  have f2: "fst (save_links_to_db no_check [?a] (Some group_b) (Some alice) ?w1) = Inr 1"
    by code_simp
  have f3: "fst (save_links_to_db no_check [''https://example.com/a/''] (Some group_a)
       (Some alice) ?w1) = Inr 0"
    by code_simp
  from f1 have r1: "save_links_to_db no_check [?a] (Some group_a) (Some alice) w0 = (Inr 1, ?w1)"
    by (simp add: prod_eq_iff)
  from f2 have r2: "save_links_to_db no_check [?a] (Some group_b) (Some alice) ?w1 =
      (Inr 1, ?w2)"
    by (simp add: prod_eq_iff)
  from f3 have r3: "save_links_to_db no_check [''https://example.com/a/''] (Some group_a)
       (Some alice) ?w1 = (Inr 0, ?w3)"
    by (simp add: prod_eq_iff)
  have ne: "chat_id group_a \<noteq> chat_id group_b" by code_simp
  have nm: "normalized no_check ?a = Inr ?a" by code_simp
  have nm': "normalized no_check ''https://example.com/a/'' = Inr ?a" by code_simp
  have na: "?a \<notin> stored_for (chat_id group_a) (links w0)" by code_simp
  have nb: "?a \<notin> stored_for (chat_id group_b) (links w0)" by code_simp
  have st: "?a \<in> stored_for (chat_id group_a) (links ?w1)" by code_simp
  from unique_pair_invariant [where ok = no_check and l = ?a and a = group_a and s = alice
      and w = w0 and ?n1.0 = 1 and ?w1.0 = ?w1 and b = group_b and s' = alice and ?n2.0 = 1
      and ?w2.0 = ?w2 and nm = ?a] r1 r2 ne nm na nb
  have two: "\<exists>r1 r2. links ?w2 = links w0 @ [r1, r2] \<and> r1 \<noteq> r2 \<and>
      key r1 = (?a, Some (chat_id group_a)) \<and> key r2 = (?a, Some (chat_id group_b))"
    by blast
  from unique_pair_invariant [where ok = no_check and l = "''https://example.com/a/''"
      and c = group_a and s = alice and w = ?w1 and n = 0 and w' = ?w3 and nm = ?a] r3 nm' st
  have same: "links ?w3 = links ?w1"
    by blast
  from u0 u1 f1 f2 two f3 same show ?thesis by blast
qed

text \<open>
  C2. When a call on the empty table returns the count \<open>N\<close>, a second call with the
  same candidates for the same group, during which no call into the storage layer
  fails, returns 0 and leaves the table as the first call left it: with exactly \<open>N\<close>
  rows, all of the group.
\<close>

theorem insert_batch_idempotent:
  assumes "links w = []"
    and "save_links_to_db ok ls (Some c) (Some s) w = (Inr n, w1)"
    and "\<forall>k\<ge>ops w1. \<not> fault w1 k"
    and "chat_id c' = chat_id c"
  shows "\<exists>w2. save_links_to_db ok ls (Some c') (Some s') w1 = (Inr 0, w2) \<and>
              links w2 = links w1 \<and> length (links w2) = n \<and>
              length (rows_of (chat_id c) (links w2)) = n"
proof -
  from save_links_to_db_result [OF assms(2)] obtain new where new: "links w1 = links w @ new"
    "n = length new" "list_all (\<lambda>r. group_id r = Some (chat_id c)) new"
    "set (map normalized_link new) = canonical_links ok ls - stored_for (chat_id c) (links w)"
    "list_all (\<lambda>l. \<exists>nm. normalized ok l = Inr nm) ls"
    by blast
  from new(1) assms(1) have l1: "links w1 = new" by simp
  from new(4) assms(1) have all: "set (map normalized_link new) = canonical_links ok ls"
    by (simp add: stored_for_Nil)
  from save_links_to_db_frame [OF assms(2)] have "table_created w1 \<or> ls = []"
    by auto
  with new(5) assms(3) obtain n2 w2
    where run2: "save_links_to_db ok ls (Some c') (Some s') w1 = (Inr n2, w2)"
    using save_links_to_db_succeeds [of ok ls w1 c' s'] by blast
  from save_links_to_db_result [OF run2] obtain new2 where new2: "links w2 = links w1 @ new2"
    "n2 = length new2"
    "set (map normalized_link new2) = canonical_links ok ls - stored_for (chat_id c') (links w1)"
    by blast
  have "stored_for (chat_id c') (links w1) = canonical_links ok ls"
    using new(3) all by (simp add: l1 assms(4) stored_for_all)
  with new2(3) have "new2 = []" by simp
  with new2 have n2: "n2 = 0" and l2: "links w2 = links w1" by simp_all
  have "rows_of (chat_id c) (links w2) = new"
    using new(3) by (simp add: l2 l1 rows_of_all)
  with run2 n2 l2 l1 new(2) show ?thesis by simp
qed

theorem insert_batch_idempotent_witness:
  "links w0 = [] \<and>
   fst (save_links_to_db no_check
          [''https://t.me/c/1'', ''https://example.com/x?y=1'', ''https://t.me/c/2'']
          (Some group_a) (Some alice) w0) = Inr 2 \<and>
   fst (save_links_to_db no_check
          [''https://t.me/c/1'', ''https://example.com/x?y=1'', ''https://t.me/c/2'']
          (Some group_a) (Some alice)
          (snd (save_links_to_db no_check
             [''https://t.me/c/1'', ''https://example.com/x?y=1'', ''https://t.me/c/2'']
             (Some group_a) (Some alice) w0))) = Inr 0 \<and>
   length (links (snd (save_links_to_db no_check
          [''https://t.me/c/1'', ''https://example.com/x?y=1'', ''https://t.me/c/2'']
          (Some group_a) (Some alice)
          (snd (save_links_to_db no_check
             [''https://t.me/c/1'', ''https://example.com/x?y=1'', ''https://t.me/c/2'']
             (Some group_a) (Some alice) w0))))) = 2"
proof -
  let ?ls = "[''https://t.me/c/1'', ''https://example.com/x?y=1'', ''https://t.me/c/2'']"
  let ?w1 = "snd (save_links_to_db no_check ?ls (Some group_a) (Some alice) w0)"
  have e: "links w0 = []" by code_simp
  have f1: "fst (save_links_to_db no_check ?ls (Some group_a) (Some alice) w0) = Inr 2"
    by code_simp
  then have r1: "save_links_to_db no_check ?ls (Some group_a) (Some alice) w0 = (Inr 2, ?w1)"
    by (simp add: prod_eq_iff)
  have "fault ?w1 = fault w0"
    using save_links_to_db_frame [OF r1] by simp
  then have nf: "\<forall>k\<ge>ops ?w1. \<not> fault ?w1 k"
    by (simp add: w0_def)
  from insert_batch_idempotent [OF e r1 nf refl, of alice]
  obtain w2 where "save_links_to_db no_check ?ls (Some group_a) (Some alice) ?w1 = (Inr 0, w2)"
    "length (links w2) = 2"
    by blast
  then have "fst (save_links_to_db no_check ?ls (Some group_a) (Some alice) ?w1) = Inr 0"
    "length (links (snd (save_links_to_db no_check ?ls (Some group_a) (Some alice) ?w1))) = 2"
    by simp_all
  with e f1 show ?thesis by blast
qed

section \<open>Duplicates inside a batch\<close>

lemma insert_loop_first:
  assumes "insert_loop ok ls (Some c) (Some s) n pending w = (Inr (n', pending'), w')"
  shows "list_all (\<lambda>r. find (\<lambda>l. normalized ok l = Inr (normalized_link r)) ls = Some (original_link r))
           (drop (length pending) pending')"
  using assms
proof (induction ls arbitrary: n pending w)
  case Nil
  then show ?case by simp
next
  case (Cons l rest)
  from Cons.prems show ?case
  proof (rule insert_loop_Cons)
    fix nm
    define w1 where "w1 = w\<lparr>clock := Suc (clock w), ops := Suc (ops w)\<rparr>"
    define row where "row = insert_values nm l c s (utcnow w (clock w))
                              \<lparr>row_id := next_id (links w @ pending)\<rparr>"
    assume nm: "normalized ok l = Inr nm"
    assume "insert_loop ok rest (Some c) (Some s)
           (if nm \<in> stored_for (chat_id c) (links w @ pending) then n else Suc n)
           (if nm \<in> stored_for (chat_id c) (links w @ pending) then pending
            else pending @ [insert_values nm l c s (utcnow w (clock w))
                              \<lparr>row_id := next_id (links w @ pending)\<rparr>])
           (w\<lparr>clock := Suc (clock w), ops := Suc (ops w)\<rparr>) = (Inr (n', pending'), w')"
    then have run: "insert_loop ok rest (Some c) (Some s)
           (if nm \<in> stored_for (chat_id c) (links w @ pending) then n else Suc n)
           (if nm \<in> stored_for (chat_id c) (links w @ pending) then pending
            else pending @ [row]) w1 = (Inr (n', pending'), w')"
      unfolding w1_def row_def .
    have lw: "links w1 = links w" by (simp add: w1_def)
    show ?thesis
    proof (cases "nm \<in> stored_for (chat_id c) (links w @ pending)")
      case True
      with run have r: "insert_loop ok rest (Some c) (Some s) n pending w1 =
          (Inr (n', pending'), w')"
        by simp
      from insert_loop_result [OF r] obtain new where new: "pending' = pending @ new"
        "set (map normalized_link new) =
           canonical_links ok rest - stored_for (chat_id c) (links w1 @ pending)"
        by blast
      from new(2) True have "\<forall>r\<in>set new. normalized_link r \<noteq> nm"
        unfolding lw by auto
      moreover from Cons.IH [OF r] new(1)
      have "list_all (\<lambda>r. find (\<lambda>l. normalized ok l = Inr (normalized_link r)) rest =
                           Some (original_link r)) new"
        by simp
      ultimately have "list_all (\<lambda>r. find (\<lambda>l. normalized ok l = Inr (normalized_link r))
                           (l # rest) = Some (original_link r)) new"
        using nm by (auto simp: list_all_iff)
      with new(1) show ?thesis by simp
    next
      case False
      with run have r: "insert_loop ok rest (Some c) (Some s) (Suc n) (pending @ [row]) w1 =
          (Inr (n', pending'), w')"
        by simp
      from insert_loop_result [OF r] obtain new where new: "pending' = (pending @ [row]) @ new"
        "set (map normalized_link new) =
           canonical_links ok rest - stored_for (chat_id c) (links w1 @ pending @ [row])"
        by blast
      have "nm \<in> stored_for (chat_id c) (links w1 @ pending @ [row])"
        by (simp add: stored_for_append row_def stored_for_new)
      with new(2) have "\<forall>r\<in>set new. normalized_link r \<noteq> nm"
        by auto
      moreover from Cons.IH [OF r] new(1)
      have "list_all (\<lambda>r. find (\<lambda>l. normalized ok l = Inr (normalized_link r)) rest =
                           Some (original_link r)) new"
        by simp
      ultimately have tl: "list_all (\<lambda>r. find (\<lambda>l. normalized ok l = Inr (normalized_link r))
                           (l # rest) = Some (original_link r)) new"
        using nm by (auto simp: list_all_iff)
      have "original_link row = l" "normalized_link row = nm"
        by (simp_all add: row_def insert_values_def)
      with nm have "find (\<lambda>l. normalized ok l = Inr (normalized_link row)) (l # rest) =
          Some (original_link row)"
        by simp
      with tl new(1) show ?thesis by simp
    qed
  qed
qed

lemma save_links_to_db_first:
  assumes "save_links_to_db ok ls (Some c) (Some s) w = (Inr n, w')"
  shows "list_all (\<lambda>r. find (\<lambda>l. normalized ok l = Inr (normalized_link r)) ls = Some (original_link r))
           (drop (length (links w)) (links w'))"
  using assms
proof (rule save_links_to_db_Inr)
  fix pending w2
  assume lo: "insert_loop ok ls (Some c) (Some s) 0 []
      (w\<lparr>ops := Suc (ops w), open_conns := Suc (open_conns w)\<rparr>) = (Inr (n, pending), w2)"
  assume w': "w' = w2\<lparr>ops := Suc (ops w2), links := links w2 @ pending,
                 open_conns := open_conns w2 - 1\<rparr>"
  from insert_loop_frame [OF lo] have "links w2 = links w" by simp
  with insert_loop_first [OF lo] w' show ?thesis by simp
qed

text \<open>
  C10. A call that returns has stored one row for every canonical link of the batch
  that the group did not have yet, and has counted these rows: the count is the
  number of distinct new canonical links, whatever the number of candidates. The
  row of a canonical link holds the first candidate of the batch that has it. Two
  message links of one channel in one batch are stored as one row, that of the
  first.
\<close>

theorem batch_duplicates_collapse:
  assumes "save_links_to_db ok ls (Some c) (Some s) w = (Inr n, w')"
  shows "n = card (canonical_links ok ls - stored_for (chat_id c) (links w)) \<and>
         (\<exists>new. links w' = links w @ new \<and> length new = n \<and>
                distinct (map normalized_link new) \<and>
                set (map normalized_link new) =
                  canonical_links ok ls - stored_for (chat_id c) (links w) \<and>
                list_all (\<lambda>r. find (\<lambda>l. normalized ok l = Inr (normalized_link r)) ls =
                               Some (original_link r)) new)"
proof -
  from save_links_to_db_result [OF assms] obtain new where new: "links w' = links w @ new"
    "n = length new" "distinct (map normalized_link new)"
    "set (map normalized_link new) = canonical_links ok ls - stored_for (chat_id c) (links w)"
    by blast
  from save_links_to_db_first [OF assms] new(1)
  have f: "list_all (\<lambda>r. find (\<lambda>l. normalized ok l = Inr (normalized_link r)) ls =
                         Some (original_link r)) new"
    by simp
  from new(3) have "card (set (map normalized_link new)) = length (map normalized_link new)"
    by (rule distinct_card)
  with new(2,4) have "n = card (canonical_links ok ls - stored_for (chat_id c) (links w))"
    by simp
  with new f show ?thesis by blast
qed

theorem batch_duplicates_collapse_witness:
  "fst (save_links_to_db no_check [''https://t.me/c/1'', ''https://t.me/c/2'']
          (Some group_a) (Some alice) w0) = Inr 1 \<and>
   links (snd (save_links_to_db no_check [''https://t.me/c/1'', ''https://t.me/c/2'']
          (Some group_a) (Some alice) w0)) =
     [\<lparr>row_id = 1, normalized_link = ''https://t.me/c'',
       original_link = ''https://t.me/c/1'', platform = ''telegram'',
       group_id = Some (-1001), group_name = Some ''Group A'', sender_id = Some 42,
       sender_name = Some ''Alice'', date_added = ''2024-01-01T00:00:00''\<rparr>] \<and>
   card (canonical_links no_check [''https://t.me/c/1'', ''https://t.me/c/2''] -
         stored_for (chat_id group_a) (links w0)) = 1"
proof -
  let ?run = "save_links_to_db no_check [''https://t.me/c/1'', ''https://t.me/c/2'']
          (Some group_a) (Some alice) w0"
  have a: "fst ?run = Inr 1"
    by code_simp
  have b: "links (snd ?run) =
     [\<lparr>row_id = 1, normalized_link = ''https://t.me/c'',
       original_link = ''https://t.me/c/1'', platform = ''telegram'',
       group_id = Some (-1001), group_name = Some ''Group A'', sender_id = Some 42,
       sender_name = Some ''Alice'', date_added = ''2024-01-01T00:00:00''\<rparr>]"
    by code_simp
  from a have h: "?run = (Inr 1, snd ?run)"
    by (simp add: prod_eq_iff)
  from batch_duplicates_collapse [OF h]
  have "1 = card (canonical_links no_check [''https://t.me/c/1'', ''https://t.me/c/2''] -
         stored_for (chat_id group_a) (links w0))"
    by blast
  with a b show ?thesis by simp
qed

section \<open>Links without scheme and host\<close>

text \<open>A round of the loop on a candidate that normalizes, when the insertion does not fail.\<close>

lemma insert_loop_step:
  assumes "normalized ok l = Inr nm" and "\<not> fault w (ops w)" and "table_created w"
  shows "insert_loop ok (l # rest) (Some c) (Some s) n pending w =
     insert_loop ok rest (Some c) (Some s)
       (if nm \<in> stored_for (chat_id c) (links w @ pending) then n else Suc n)
       (if nm \<in> stored_for (chat_id c) (links w @ pending) then pending
        else pending @ [insert_values nm l c s (utcnow w (clock w))
                          \<lparr>row_id := next_id (links w @ pending)\<rparr>])
       (w\<lparr>clock := Suc (clock w), ops := Suc (ops w)\<rparr>)"
  using assms
  by (auto simp: execute_insert_def Let_def conflicts_insert_values stored_for_append)

text \<open>
  C5, the claim as stated fails: \<open>foo\<close> has neither scheme nor host, and its canonical
  form is \<open>://foo\<close>, not \<open>foo\<close>.
\<close>

theorem no_raw_fallback:
  "urlparse no_check ''foo'' =
     Inr \<lparr>scheme = [], netloc = [], path = ''foo'', params = [], query = [], fragment = []\<rparr> \<and>
   normalized no_check ''foo'' = Inr ''://foo'' \<and>
   normalized no_check ''foo'' \<noteq> Inr ''foo''"
  by code_simp

text \<open>
  C5, amended. A link that is parsed with an empty scheme and an empty host is
  normalized without an error, to \<open>://\<close> followed by its path without the trailing
  slashes; the raw string is not what is stored as its canonical form. The loop then
  goes on with the candidates that follow it, when the insertion itself does not
  fail.
\<close>

theorem empty_scheme_and_host:
  assumes "urlparse ok link = Inr p" and "scheme p = []" and "netloc p = []"
  shows "normalized ok link = Inr (''://'' @ rstrip_slash (path p)) \<and>
         (\<not> fault w (ops w) \<and> table_created w \<longrightarrow>
          insert_loop ok (link # rest) (Some c) (Some s) n pending w =
            insert_loop ok rest (Some c) (Some s)
              (if ''://'' @ rstrip_slash (path p) \<in> stored_for (chat_id c) (links w @ pending)
               then n else Suc n)
              (if ''://'' @ rstrip_slash (path p) \<in> stored_for (chat_id c) (links w @ pending)
               then pending
               else pending @
                    [insert_values (''://'' @ rstrip_slash (path p)) link c s (utcnow w (clock w))
                       \<lparr>row_id := next_id (links w @ pending)\<rparr>])
              (w\<lparr>clock := Suc (clock w), ops := Suc (ops w)\<rparr>))"
proof -
  have nm: "normalized ok link = Inr (''://'' @ rstrip_slash (path p))"
    using assms by (simp add: normalized_parsed)
  then show ?thesis
    using insert_loop_step [OF nm] by blast
qed

theorem empty_scheme_and_host_witness:
  "urlparse no_check ''example.com/page/'' =
     Inr \<lparr>scheme = [], netloc = [], path = ''example.com/page/'', params = [], query = [],
          fragment = []\<rparr> \<and>
   normalized no_check ''example.com/page/'' = Inr ''://example.com/page'' \<and>
   insert_loop no_check [''example.com/page/'', ''https://example.com/a''] (Some group_a)
       (Some alice) 0 [] w0 =
     insert_loop no_check [''https://example.com/a''] (Some group_a) (Some alice) 1
       [insert_values ''://example.com/page'' ''example.com/page/'' group_a alice
          ''2024-01-01T00:00:00'' \<lparr>row_id := 1\<rparr>]
       (w0\<lparr>clock := 1, ops := 1\<rparr>) \<and>
   fst (insert_loop no_check [''example.com/page/'', ''https://example.com/a''] (Some group_a)
       (Some alice) 0 [] w0) =
     Inr (2, [insert_values ''://example.com/page'' ''example.com/page/'' group_a alice
                ''2024-01-01T00:00:00'' \<lparr>row_id := 1\<rparr>,
              insert_values ''https://example.com/a'' ''https://example.com/a'' group_a alice
                ''2024-01-01T00:00:00'' \<lparr>row_id := 2\<rparr>])"
proof -
  have p: "urlparse no_check ''example.com/page/'' =
     Inr \<lparr>scheme = [], netloc = [], path = ''example.com/page/'', params = [], query = [],
          fragment = []\<rparr>"
    by code_simp
  have r: "rstrip_slash ''example.com/page/'' = ''example.com/page''"
    by code_simp
  have w: "\<not> fault w0 (ops w0)" "table_created w0" "links w0 = []" "clock w0 = 0" "ops w0 = 0"
    "utcnow w0 0 = ''2024-01-01T00:00:00''"
    by (simp_all add: w0_def)
  note t = empty_scheme_and_host [OF p, of w0 "[''https://example.com/a'']" group_a alice 0 "[]"]
  have n: "normalized no_check ''example.com/page/'' = Inr ''://example.com/page''"
    using t r by (simp del: insert_loop.simps)
  have s: "insert_loop no_check [''example.com/page/'', ''https://example.com/a''] (Some group_a)
       (Some alice) 0 [] w0 =
     insert_loop no_check [''https://example.com/a''] (Some group_a) (Some alice) 1
       [insert_values ''://example.com/page'' ''example.com/page/'' group_a alice
          ''2024-01-01T00:00:00'' \<lparr>row_id := 1\<rparr>]
       (w0\<lparr>clock := 1, ops := 1\<rparr>)"
    using t r w by (simp add: stored_for_Nil next_id_def del: insert_loop.simps)
  have f: "fst (insert_loop no_check [''example.com/page/'', ''https://example.com/a'']
       (Some group_a) (Some alice) 0 [] w0) =
     Inr (2, [insert_values ''://example.com/page'' ''example.com/page/'' group_a alice
                ''2024-01-01T00:00:00'' \<lparr>row_id := 1\<rparr>,
              insert_values ''https://example.com/a'' ''https://example.com/a'' group_a alice
                ''2024-01-01T00:00:00'' \<lparr>row_id := 2\<rparr>])"
    by code_simp
  from p n s f show ?thesis by blast
qed

section \<open>The handler\<close>

lemma save_links_to_db_console:
  "console (snd (save_links_to_db ok ls chat sender w)) = console w"
proof (cases "save_links_to_db ok ls chat sender w")
  case (Pair r w')
  show ?thesis
  proof (cases r)
    case (Inl e)
    with Pair show ?thesis
      using save_links_to_db_committed [of ok ls chat sender w e w'] by simp
  next
    case (Inr n)
    with Pair show ?thesis
      using save_links_to_db_frame [of ok ls chat sender w n w'] by simp
  qed
qed

lemma save_links_to_db_needs_chat:
  assumes "save_links_to_db ok ls chat sender w = (Inr n, w')" and "ls \<noteq> []"
  shows "\<exists>c s. chat = Some c \<and> sender = Some s"
  using assms by (auto elim!: save_links_to_db_Inr dest: insert_loop_needs_chat)

text \<open>
  What the handler stores when the call of \<open>save_links_to_db\<close> returns: the rows
  added to the table hold the canonical links of the extracted links, not the
  extracted links themselves.
\<close>

lemma handle_all_messages_stores:
  assumes m: "effective_message u = Some m"
    and ne: "extract_all_links_from_message m \<noteq> []"
    and run: "save_links_to_db ok (extract_all_links_from_message m) (effective_chat u)
         (effective_user u) w = (Inr added, w1)"
  shows "\<exists>c new. effective_chat u = Some c \<and>
            handle_all_messages ok u w =
              (Inr (), w1\<lparr>console := console w @
                          (if 0 < added then [SavedLinks added (chat_id c) (title c)]
                           else [])\<rparr>) \<and>
            links (snd (handle_all_messages ok u w)) = links w @ new \<and>
            length new = added \<and>
            list_all (\<lambda>l. \<exists>nm. normalized ok l = Inr nm) (extract_all_links_from_message m) \<and>
            list_all (\<lambda>r. group_id r = Some (chat_id c)) new \<and>
            distinct (map normalized_link new) \<and>
            set (map normalized_link new) =
              canonical_links ok (extract_all_links_from_message m) -
              stored_for (chat_id c) (links w) \<and>
            list_all (\<lambda>r. find (\<lambda>l. normalized ok l = Inr (normalized_link r))
                              (extract_all_links_from_message m) = Some (original_link r)) new"
proof -
  from save_links_to_db_needs_chat [OF run ne] obtain c s
    where c: "effective_chat u = Some c" and s: "effective_user u = Some s"
    by blast
  have run': "save_links_to_db ok (extract_all_links_from_message m) (Some c) (Some s) w =
      (Inr added, w1)"
    using run unfolding c s .
  have "console w1 = console w"
    using save_links_to_db_console [of ok "extract_all_links_from_message m" "effective_chat u"
        "effective_user u" w] run by simp
  then have h: "handle_all_messages ok u w =
              (Inr (), w1\<lparr>console := console w @
                          (if 0 < added then [SavedLinks added (chat_id c) (title c)]
                           else [])\<rparr>)"
    using m ne run c by (simp add: handle_all_messages_def Let_def)
  from save_links_to_db_result [OF run'] obtain new where new: "links w1 = links w @ new"
    "added = length new" "list_all (\<lambda>r. group_id r = Some (chat_id c)) new"
    "distinct (map normalized_link new)"
    "set (map normalized_link new) =
       canonical_links ok (extract_all_links_from_message m) - stored_for (chat_id c) (links w)"
    "list_all (\<lambda>l. \<exists>nm. normalized ok l = Inr nm) (extract_all_links_from_message m)"
    by blast
  from save_links_to_db_first [OF run'] new(1)
  have f: "list_all (\<lambda>r. find (\<lambda>l. normalized ok l = Inr (normalized_link r))
                              (extract_all_links_from_message m) = Some (original_link r)) new"
    by simp
  from h new(1) have l: "links (snd (handle_all_messages ok u w)) = links w @ new"
    by simp
  from c h l new f show ?thesis by blast
qed

text \<open>
  C7. An update without a message, or with a message from which no link is
  extracted, leaves the world as it is: no call into the storage layer, no line
  printed. When links are extracted, \<open>save_links_to_db\<close> is called once with all of
  them; when it returns the count \<open>added\<close>, every extracted link has been
  normalized, the table has \<open>added\<close> new rows, all of the chat, and their canonical
  links are exactly the canonical links of the extracted links that the chat did
  not have yet, each row holding the first extracted link with its canonical link.
  One line is printed if and only if \<open>added\<close> is positive, and the line reports
  \<open>added\<close>, the id of the chat and its title. When the call raises, the error is
  passed on, nothing is stored and nothing is printed.
\<close>

theorem handle_all_messages_effects:
  "(effective_message u = None \<longrightarrow> handle_all_messages ok u w = (Inr (), w))
   \<and> (effective_message u = Some m \<and> extract_all_links_from_message m = [] \<longrightarrow>
       handle_all_messages ok u w = (Inr (), w))
   \<and> (effective_message u = Some m \<and> extract_all_links_from_message m \<noteq> [] \<and>
       save_links_to_db ok (extract_all_links_from_message m) (effective_chat u)
         (effective_user u) w = (Inr added, w1) \<longrightarrow>
       (\<exists>c new. effective_chat u = Some c \<and>
            handle_all_messages ok u w =
              (Inr (), w1\<lparr>console := console w @
                          (if 0 < added then [SavedLinks added (chat_id c) (title c)]
                           else [])\<rparr>) \<and>
            links (snd (handle_all_messages ok u w)) = links w @ new \<and>
            length new = added \<and>
            list_all (\<lambda>l. \<exists>nm. normalized ok l = Inr nm) (extract_all_links_from_message m) \<and>
            list_all (\<lambda>r. group_id r = Some (chat_id c)) new \<and>
            distinct (map normalized_link new) \<and>
            set (map normalized_link new) =
              canonical_links ok (extract_all_links_from_message m) -
              stored_for (chat_id c) (links w) \<and>
            list_all (\<lambda>r. find (\<lambda>l. normalized ok l = Inr (normalized_link r))
                              (extract_all_links_from_message m) = Some (original_link r)) new))
   \<and> (effective_message u = Some m \<and> extract_all_links_from_message m \<noteq> [] \<and>
       save_links_to_db ok (extract_all_links_from_message m) (effective_chat u)
         (effective_user u) w = (Inl e, w1) \<longrightarrow>
       handle_all_messages ok u w = (Inl e, w1) \<and> console w1 = console w \<and>
       links w1 = links w)"
proof (intro conjI impI)
  assume "effective_message u = None"
  then show "handle_all_messages ok u w = (Inr (), w)"
    by (simp add: handle_all_messages_def)
next
  assume "effective_message u = Some m \<and> extract_all_links_from_message m = []"
  then show "handle_all_messages ok u w = (Inr (), w)"
    by (simp add: handle_all_messages_def)
next
  assume h: "effective_message u = Some m \<and> extract_all_links_from_message m \<noteq> [] \<and>
       save_links_to_db ok (extract_all_links_from_message m) (effective_chat u)
         (effective_user u) w = (Inr added, w1)"
  then have run: "save_links_to_db ok (extract_all_links_from_message m) (effective_chat u)
         (effective_user u) w = (Inr added, w1)"
    and ne: "extract_all_links_from_message m \<noteq> []" and m: "effective_message u = Some m"
    by simp_all
  from m ne run show "\<exists>c new. effective_chat u = Some c \<and>
            handle_all_messages ok u w =
              (Inr (), w1\<lparr>console := console w @
                          (if 0 < added then [SavedLinks added (chat_id c) (title c)]
                           else [])\<rparr>) \<and>
            links (snd (handle_all_messages ok u w)) = links w @ new \<and>
            length new = added \<and>
            list_all (\<lambda>l. \<exists>nm. normalized ok l = Inr nm) (extract_all_links_from_message m) \<and>
            list_all (\<lambda>r. group_id r = Some (chat_id c)) new \<and>
            distinct (map normalized_link new) \<and>
            set (map normalized_link new) =
              canonical_links ok (extract_all_links_from_message m) -
              stored_for (chat_id c) (links w) \<and>
            list_all (\<lambda>r. find (\<lambda>l. normalized ok l = Inr (normalized_link r))
                              (extract_all_links_from_message m) = Some (original_link r)) new"
    by (rule handle_all_messages_stores)
next
  assume h: "effective_message u = Some m \<and> extract_all_links_from_message m \<noteq> [] \<and>
       save_links_to_db ok (extract_all_links_from_message m) (effective_chat u)
         (effective_user u) w = (Inl e, w1)"
  then show "handle_all_messages ok u w = (Inl e, w1)"
    by (simp add: handle_all_messages_def Let_def)
  from h show "console w1 = console w" and "links w1 = links w"
    using save_links_to_db_committed [of ok "extract_all_links_from_message m"
        "effective_chat u" "effective_user u" w e w1] by simp_all
qed

theorem handle_all_messages_effects_witness:
  "handle_all_messages no_check
       \<lparr>effective_message = None, effective_chat = Some group_a, effective_user = Some alice\<rparr>
       w0 = (Inr (), w0) \<and>
   extract_all_links_from_message msg_plain = [] \<and>
   handle_all_messages no_check
       \<lparr>effective_message = Some msg_plain, effective_chat = Some group_a,
        effective_user = Some alice\<rparr> w0 = (Inr (), w0) \<and>
   extract_all_links_from_message msg_reply =
     [''https://a.example/x/?utm=1'', ''https://t.me/examplechannel/12345'',
      ''https://t.me/examplechannel/67890''] \<and>
   fst (save_links_to_db no_check (extract_all_links_from_message msg_reply) (Some group_a)
          (Some alice) w0) = Inr 2 \<and>
   console (snd (handle_all_messages no_check
       \<lparr>effective_message = Some msg_reply, effective_chat = Some group_a,
        effective_user = Some alice\<rparr> w0)) = [SavedLinks 2 (-1001) (Some ''Group A'')] \<and>
   map normalized_link (links (snd (handle_all_messages no_check
       \<lparr>effective_message = Some msg_reply, effective_chat = Some group_a,
        effective_user = Some alice\<rparr> w0))) =
     [''https://a.example/x'', ''https://t.me/examplechannel''] \<and>
   map original_link (links (snd (handle_all_messages no_check
       \<lparr>effective_message = Some msg_reply, effective_chat = Some group_a,
        effective_user = Some alice\<rparr> w0))) =
     [''https://a.example/x/?utm=1'', ''https://t.me/examplechannel/12345''] \<and>
   set (map normalized_link (links (snd (handle_all_messages no_check
       \<lparr>effective_message = Some msg_reply, effective_chat = Some group_a,
        effective_user = Some alice\<rparr> w0)))) =
     canonical_links no_check (extract_all_links_from_message msg_reply) -
     stored_for (chat_id group_a) (links w0) \<and>
   fst (save_links_to_db no_check (extract_all_links_from_message msg_reply) (Some group_a)
          None w0) = Inl AttributeError \<and>
   fst (handle_all_messages no_check
       \<lparr>effective_message = Some msg_reply, effective_chat = Some group_a,
        effective_user = None\<rparr> w0) = Inl AttributeError"
proof -
  let ?u = "\<lambda>m s. \<lparr>effective_message = m, effective_chat = Some group_a, effective_user = s\<rparr>"
  let ?ls = "extract_all_links_from_message msg_reply"
  let ?w1 = "snd (save_links_to_db no_check ?ls (Some group_a) (Some alice) w0)"
  let ?w1' = "snd (save_links_to_db no_check ?ls (Some group_a) None w0)"
  let ?h = "handle_all_messages no_check (?u (Some msg_reply) (Some alice)) w0"
  have a: "handle_all_messages no_check (?u None (Some alice)) w0 = (Inr (), w0)"
    using handle_all_messages_effects [where u = "?u None (Some alice)" and ok = no_check
        and w = w0]
    by simp
  have e0: "extract_all_links_from_message msg_plain = []"
    by code_simp
  have b: "handle_all_messages no_check (?u (Some msg_plain) (Some alice)) w0 = (Inr (), w0)"
    using handle_all_messages_effects [where u = "?u (Some msg_plain) (Some alice)"
        and ok = no_check and w = w0 and m = msg_plain] e0
    by simp
  have e1: "?ls = [''https://a.example/x/?utm=1'', ''https://t.me/examplechannel/12345'',
      ''https://t.me/examplechannel/67890'']"
    by code_simp
  then have ne: "?ls \<noteq> []" by simp
  have f: "fst (save_links_to_db no_check ?ls (Some group_a) (Some alice) w0) = Inr 2"
    by code_simp
  then have run: "save_links_to_db no_check ?ls (Some group_a) (Some alice) w0 = (Inr 2, ?w1)"
    by (simp add: prod_eq_iff)
  have l0: "links w0 = []" by (simp add: w0_def)
  have hyp: "effective_message (?u (Some msg_reply) (Some alice)) = Some msg_reply \<and>
      ?ls \<noteq> [] \<and>
      save_links_to_db no_check ?ls (effective_chat (?u (Some msg_reply) (Some alice)))
        (effective_user (?u (Some msg_reply) (Some alice))) w0 = (Inr 2, ?w1)"
    using ne run by simp
  note stored = handle_all_messages_effects [where u = "?u (Some msg_reply) (Some alice)"
        and ok = no_check and w = w0 and m = msg_reply and added = 2 and ?w1.0 = ?w1,
        THEN conjunct2, THEN conjunct2, THEN conjunct1, THEN mp, OF hyp]
  from stored obtain c new
    where t1: "effective_chat (?u (Some msg_reply) (Some alice)) = Some c"
      and t2: "?h = (Inr (), ?w1\<lparr>console := console w0 @
             (if 0 < (2::nat) then [SavedLinks 2 (chat_id c) (title c)] else [])\<rparr>)"
      and t3: "links (snd ?h) = links w0 @ new"
      and t4: "set (map normalized_link new) =
             canonical_links no_check ?ls - stored_for (chat_id c) (links w0)"
    by (elim exE conjE)
  from t1 have cg: "c = group_a" by simp
  from t2 have c: "console (snd ?h) = [SavedLinks 2 (-1001) (Some ''Group A'')]"
    by (simp add: cg w0_def group_a_def)
  from t3 t4 have st: "set (map normalized_link (links (snd ?h))) =
      canonical_links no_check ?ls - stored_for (chat_id group_a) (links w0)"
    by (simp add: l0 cg)
  have nl: "map normalized_link (links (snd ?h)) =
      [''https://a.example/x'', ''https://t.me/examplechannel'']"
    by code_simp
  have ol: "map original_link (links (snd ?h)) =
      [''https://a.example/x/?utm=1'', ''https://t.me/examplechannel/12345'']"
    by code_simp
  have g: "fst (save_links_to_db no_check ?ls (Some group_a) None w0) = Inl AttributeError"
    by code_simp
  then have run': "save_links_to_db no_check ?ls (Some group_a) None w0 =
      (Inl AttributeError, ?w1')"
    by (simp add: prod_eq_iff)
  have d: "fst (handle_all_messages no_check (?u (Some msg_reply) None) w0) = Inl AttributeError"
    using handle_all_messages_effects [where u = "?u (Some msg_reply) None"
        and ok = no_check and w = w0 and m = msg_reply and e = AttributeError
        and ?w1.0 = ?w1'] ne run'
    by simp
  from a e0 b e1 f c nl ol st g d show ?thesis by blast
qed

section \<open>The connection and the start of the process\<close>

text \<open>
  C8. On the sample world a batch of two candidates, the second a duplicate of the
  first, returns 1 and leaves no connection open. When the first insertion of a
  batch raises \<open>OperationalError\<close>, the call ends with that error, nothing is
  committed, and the connection of the batch is still open: \<open>conn.close()\<close> is the
  last statement of the function and no \<open>finally\<close> reaches it.
\<close>

theorem connection_left_open_on_fault:
  "open_conns (w0\<lparr>fault := (\<lambda>k. k = 1)\<rparr>) = 0 \<and>
   fst (save_links_to_db no_check [''https://example.com/a''] (Some group_a) (Some alice)
          (w0\<lparr>fault := (\<lambda>k. k = 1)\<rparr>)) = Inl OperationalError \<and>
   open_conns (snd (save_links_to_db no_check [''https://example.com/a''] (Some group_a)
          (Some alice) (w0\<lparr>fault := (\<lambda>k. k = 1)\<rparr>))) = 1 \<and>
   links (snd (save_links_to_db no_check [''https://example.com/a''] (Some group_a)
          (Some alice) (w0\<lparr>fault := (\<lambda>k. k = 1)\<rparr>))) = [] \<and>
   fst (save_links_to_db no_check [''https://example.com/a'', ''https://example.com/a/'']
          (Some group_a) (Some alice) w0) = Inr 1 \<and>
   open_conns (snd (save_links_to_db no_check
          [''https://example.com/a'', ''https://example.com/a/''] (Some group_a) (Some alice)
          w0)) = 0"
  by code_simp

text \<open>
  C9. Started without a token (the variable unset, or set to the empty string) on a
  world where \<open>links.db\<close> has no table yet and the storage layer does not fail, the
  module prints the line that the token was not found and ends by \<open>exit()\<close>, which
  is called without a code: the exit status is 0. By then \<open>init_db()\<close> has run and
  the table exists. The application is neither built nor started; with a token it
  is.
\<close>

theorem missing_token_exit:
  "fst (run_module None True (w0\<lparr>table_created := False\<rparr>)) = Exited 0 \<and>
   console (snd (run_module None True (w0\<lparr>table_created := False\<rparr>))) = [TokenNotFound] \<and>
   table_created (snd (run_module None True (w0\<lparr>table_created := False\<rparr>))) = True \<and>
   open_conns (snd (run_module None True (w0\<lparr>table_created := False\<rparr>))) = 0 \<and>
   fst (run_module (Some []) True (w0\<lparr>table_created := False\<rparr>)) = Exited 0 \<and>
   fst (run_module (Some ''123:abc'') True (w0\<lparr>table_created := False\<rparr>)) = Polling"
  by code_simp

section \<open>Extraction order\<close>

lemma entity_links_append:
  "entity_links txt (es1 @ es2) = entity_links txt es1 @ entity_links txt es2"
  by (induction es1) simp_all

lemma extract_links_from_entities_append:
  "extract_links_from_entities txt (es1 @ es2) =
     extract_links_from_entities txt es1 @ extract_links_from_entities txt es2"
  by (simp add: extract_links_from_entities_def entity_links_append)

lemma extract_links_from_buttons_append:
  "extract_links_from_buttons \<lparr>inline_keyboard = rows1 @ rows2\<rparr> =
     extract_links_from_buttons \<lparr>inline_keyboard = rows1\<rparr> @
     extract_links_from_buttons \<lparr>inline_keyboard = rows2\<rparr>"
  by (simp add: extract_links_from_buttons_def)

lemma row_links_append: "row_links (bs1 @ bs2) = row_links bs1 @ row_links bs2"
  by (induction bs1) (simp_all split: option.splits)

lemma extract_all_links_unfold:
  "extract_all_links_from_message m =
     (case text_m m of
        None \<Rightarrow> []
      | Some t \<Rightarrow> if t \<noteq> [] then extract_links_from_entities t (entities m) else []) @
     (case caption m of
        None \<Rightarrow> []
      | Some c \<Rightarrow> if c \<noteq> [] then extract_links_from_entities c (caption_entities m) else []) @
     (case reply_markup m of
        None \<Rightarrow> []
      | Some k \<Rightarrow> extract_links_from_buttons k) @
     (case reply_to_message m of
        None \<Rightarrow> []
      | Some parent \<Rightarrow> extract_all_links_from_message parent)"
  by (cases m) (auto split: option.splits)

lemma extract_example:
  "extract_all_links_from_message
       (Message (Some ''see https://a.example/x now'')
          [\<lparr>type = URL, offset = 4, length_e = 19, url = []\<rparr>] None [] None
          (Some (Message (Some ''parent'') [] None []
             (Some \<lparr>inline_keyboard = [[\<lparr>url_b = Some ''https://b.example/y''\<rparr>]]\<rparr>)
             None))) =
     [''https://a.example/x'', ''https://b.example/y'']"
  by (simp add: extract_links_from_entities_def extract_links_from_buttons_def URL_def
      TEXT_LINK_def py_slice_def slice_index_def)

text \<open>
  C6. The links of a message are, in this order, the links of its text entities, the
  links of its caption entities, the URLs of its buttons and then everything
  extracted from the message it replies to. Inside each group the order is the order
  of the entities, of the rows and of the buttons in a row. A message with one URL
  entity in its text that replies to a message with one URL button yields the text
  URL followed by the parent's button URL.
\<close>

theorem extract_all_links_order:
  "extract_all_links_from_message m =
     (case text_m m of
        None \<Rightarrow> []
      | Some t \<Rightarrow> if t \<noteq> [] then extract_links_from_entities t (entities m) else []) @
     (case caption m of
        None \<Rightarrow> []
      | Some c \<Rightarrow> if c \<noteq> [] then extract_links_from_entities c (caption_entities m) else []) @
     (case reply_markup m of
        None \<Rightarrow> []
      | Some k \<Rightarrow> extract_links_from_buttons k) @
     (case reply_to_message m of
        None \<Rightarrow> []
      | Some parent \<Rightarrow> extract_all_links_from_message parent)
   \<and> extract_links_from_entities txt (es1 @ es2) =
       extract_links_from_entities txt es1 @ extract_links_from_entities txt es2
   \<and> extract_links_from_buttons \<lparr>inline_keyboard = rows1 @ rows2\<rparr> =
       extract_links_from_buttons \<lparr>inline_keyboard = rows1\<rparr> @
       extract_links_from_buttons \<lparr>inline_keyboard = rows2\<rparr>
   \<and> extract_links_from_buttons \<lparr>inline_keyboard = [bs1 @ bs2]\<rparr> =
       extract_links_from_buttons \<lparr>inline_keyboard = [bs1]\<rparr> @
       extract_links_from_buttons \<lparr>inline_keyboard = [bs2]\<rparr>
   \<and> extract_all_links_from_message
         (Message (Some ''see https://a.example/x now'')
            [\<lparr>type = URL, offset = 4, length_e = 19, url = []\<rparr>] None [] None
            (Some (Message (Some ''parent'') [] None []
               (Some \<lparr>inline_keyboard = [[\<lparr>url_b = Some ''https://b.example/y''\<rparr>]]\<rparr>)
               None))) =
       [''https://a.example/x'', ''https://b.example/y'']"
proof -
  have in_row: "extract_links_from_buttons \<lparr>inline_keyboard = [bs1 @ bs2]\<rparr> =
     extract_links_from_buttons \<lparr>inline_keyboard = [bs1]\<rparr> @
     extract_links_from_buttons \<lparr>inline_keyboard = [bs2]\<rparr>"
    by (simp add: extract_links_from_buttons_def row_links_append)
  show ?thesis
    by (intro conjI extract_all_links_unfold extract_links_from_entities_append
        extract_links_from_buttons_append extract_example in_row)
qed

end
